theory Spec2Isabelle
  imports Main
begin

section \<open>JavaScript strings\<close>

text \<open>
  Strings are lists of code units; the model keeps the code units U+0000 .. U+00FF.
  \<open>char_at s i\<close> is \<^verbatim>\<open>s[i]\<close>: \<open>None\<close> stands for \<^verbatim>\<open>undefined\<close>, the
  value JavaScript gives for an index outside the string (negative indices included).
\<close>

definition char_at :: "string \<Rightarrow> int \<Rightarrow> char option" where
  "char_at s i = (if 0 \<le> i \<and> i < int (length s) then Some (s ! nat i) else None)"

text \<open>
  The characters that \<^verbatim>\<open>trim\<close>, \<^verbatim>\<open>trimStart\<close>, \<^verbatim>\<open>trimEnd\<close> and the class
  \<^verbatim>\<open>\s\<close> treat as white space, among the code units below U+0100: tab, line feed,
  vertical tab, form feed, carriage return, space and no-break space.
\<close>

definition isWhiteSpaceChar :: "char \<Rightarrow> bool" where
  "isWhiteSpaceChar c \<longleftrightarrow>
     c = CHR 0x09 \<or> c = CHR 0x0A \<or> c = CHR 0x0B \<or> c = CHR 0x0C \<or> c = CHR 0x0D \<or>
     c = CHR 0x20 \<or> c = CHR 0xA0"

definition trimStart :: "string \<Rightarrow> string" where
  "trimStart s = dropWhile isWhiteSpaceChar s"

definition trimEnd :: "string \<Rightarrow> string" where
  "trimEnd s = rev (dropWhile isWhiteSpaceChar (rev s))"

definition trim :: "string \<Rightarrow> string" where
  "trim s = trimEnd (trimStart s)"

text \<open>\<^verbatim>\<open>s.slice(a, b)\<close>: a negative index counts from the end, both are clamped.\<close>

definition slice :: "string \<Rightarrow> int \<Rightarrow> int \<Rightarrow> string" where
  "slice s a b =
     (let len = int (length s);
          from = (if a < 0 then max (len + a) 0 else min a len);
          to = (if b < 0 then max (len + b) 0 else min b len)
      in take (nat (to - from)) (drop (nat from) s))"

text \<open>\<^verbatim>\<open>s.split("\n")\<close>: never empty, the empty string gives one empty line.\<close>

fun split_nl :: "string \<Rightarrow> string list" where
  "split_nl [] = [[]]"
| "split_nl (c # cs) =
     (if c = CHR 0x0A then [] # split_nl cs
      else (case split_nl cs of [] \<Rightarrow> [[c]] | l # ls \<Rightarrow> (c # l) # ls))"

text \<open>
  \<^verbatim>\<open>s.lastIndexOf(c, pos)\<close> for a one-character search string: the position is clamped
  between 0 and \<^verbatim>\<open>s.length - 1\<close>, the largest index at or below it that holds \<open>c\<close> is
  returned, and -1 when there is none.
\<close>

definition lastIndexOf :: "string \<Rightarrow> char \<Rightarrow> int \<Rightarrow> int" where
  "lastIndexOf s c pos =
     (let start = min (max pos 0) (int (length s) - 1)
      in case filter (\<lambda>i. s ! i = c) (rev [0 ..< nat (start + 1)]) of
           [] \<Rightarrow> - 1
         | i # _ \<Rightarrow> int i)"

section \<open>Array.prototype.binarySearch\<close>

text \<open>
  The callback compares the probed element with the target: 0 found, negative go left,
  positive go right. \<open>low\<close> starts at 0 and only grows, \<open>high\<close> starts at
  \<^verbatim>\<open>length - 1\<close> and only shrinks, so every probe \<open>xs ! nat mid\<close> is inside the array.
\<close>

function binarySearch_loop :: "('a \<Rightarrow> int) \<Rightarrow> 'a list \<Rightarrow> int \<Rightarrow> int \<Rightarrow> int" where
  "binarySearch_loop callback xs low high =
     (if low \<le> high then
        (let mid = (low + high) div 2;
             comparison = callback (xs ! nat mid)
         in if comparison = 0 then mid
            else if comparison < 0 then binarySearch_loop callback xs low (mid - 1)
            else binarySearch_loop callback xs (mid + 1) high)
      else - 1)"
  by pat_completeness auto
termination
  by (relation "measure (\<lambda>(callback, xs, low, high). nat (high - low + 1))") auto

declare binarySearch_loop.simps [simp del]

definition binarySearch :: "('a \<Rightarrow> int) \<Rightarrow> 'a list \<Rightarrow> int" where
  "binarySearch callback xs = binarySearch_loop callback xs 0 (int (length xs) - 1)"

section \<open>Regular expressions and patterns\<close>

text \<open>
  The regular-expression engine is the host's. A \<open>regex\<close> carries its two flags that
  matter to \<^verbatim>\<open>exec\<close> and its matcher: \<open>matcher r s i = Some n\<close> when the expression
  matches \<open>n\<close> characters of \<open>s\<close> at index \<open>i\<close>. \<open>regex_exec\<close> is \<^verbatim>\<open>r.exec(s)\<close> after
  \<^verbatim>\<open>r.lastIndex = lastIndex\<close>, giving \<^verbatim>\<open>match[0]\<close>: a sticky expression is tried at
  \<open>lastIndex\<close> only, a global one at \<open>lastIndex\<close> and every later index, and one with
  neither flag ignores \<open>lastIndex\<close> and searches from index 0.
\<close>

datatype regex = RegExp (sticky: bool) (global: bool) (matcher: "string \<Rightarrow> nat \<Rightarrow> nat option")

definition match_text :: "regex \<Rightarrow> string \<Rightarrow> nat \<Rightarrow> string option" where
  "match_text r s i = map_option (\<lambda>n. take n (drop i s)) (matcher r s i)"

definition regex_exec :: "regex \<Rightarrow> string \<Rightarrow> int \<Rightarrow> string option" where
  "regex_exec r s lastIndex =
     (let li = (if sticky r \<or> global r then nat (max lastIndex 0) else 0)
      in if li > length s then None
         else if sticky r then match_text r s li
         else (case filter (\<lambda>i. matcher r s i \<noteq> None) [li ..< Suc (length s)] of
                 [] \<Rightarrow> None
               | i # _ \<Rightarrow> match_text r s i))"

datatype pattern = PStr string | PRegex regex

text \<open>The module's \<^verbatim>\<open>WHITESPACE_REGEX = /(?:[ ]+\n?|\n)/y\<close>.\<close>

definition whitespace_matcher :: "string \<Rightarrow> nat \<Rightarrow> nat option" where
  "whitespace_matcher s i =
     (let spaces = length (takeWhile (\<lambda>c. c = CHR 0x20) (drop i s))
      in if 0 < spaces then
           Some (if char_at s (int (i + spaces)) = Some (CHR 0x0A) then spaces + 1 else spaces)
         else if char_at s (int i) = Some (CHR 0x0A) then Some 1
         else None)"

definition WHITESPACE_REGEX :: regex where
  "WHITESPACE_REGEX = RegExp True False whitespace_matcher"

text \<open>\<^verbatim>\<open>new RegExp()\<close> is \<^verbatim>\<open>/(?:)/\<close>: no flags, matches the empty string anywhere.\<close>

definition empty_RegExp :: regex where
  "empty_RegExp = RegExp False False (\<lambda>s i. Some 0)"

text \<open>\<^verbatim>\<open>/\S/y\<close>: one character that is not white space.\<close>

definition nonspace_matcher :: "string \<Rightarrow> nat \<Rightarrow> nat option" where
  "nonspace_matcher s i =
     (case char_at s (int i) of
        None \<Rightarrow> None
      | Some c \<Rightarrow> if isWhiteSpaceChar c then None else Some 1)"

definition NONSPACE_REGEX :: regex where
  "NONSPACE_REGEX = RegExp True False nonspace_matcher"

section \<open>Grammar expressions\<close>

text \<open>
  A \<open>shapeExp\<close> is a constructed \<^verbatim>\<open>ShapeExp\<close>: its value with the flag that the
  constructor derives from it (\<^verbatim>\<open>TEXT_EXP\<close>, \<^verbatim>\<open>AST_EXP\<close>, \<^verbatim>\<open>OPTION_EXP\<close>,
  \<^verbatim>\<open>SUB_SHAPE_EXP\<close>, \<^verbatim>\<open>LAZY_EXP\<close>), \<^verbatim>\<open>rightDelimeter\<close> (\<open>None\<close> for
  \<^verbatim>\<open>null\<close>), \<^verbatim>\<open>min\<close>, \<^verbatim>\<open>max\<close> (which may be \<^verbatim>\<open>Infinity\<close>) and the message
  \<^verbatim>\<open>e\<close> that a limit descriptor may assign (\<open>None\<close> when the property is missing).
  A node kind is referred to by its class name, an array value is the \<^verbatim>\<open>Shape\<close> the
  constructor made of it, and a thunk holds the value it returns.
\<close>

datatype limit = Finite nat | Infinity

datatype shapeExp =
  ShapeExp (exp_value: svalue) (rightDelimeter: "pattern option") (exp_min: nat)
    (exp_max: limit) (exp_e: "string option")
and svalue =
    TEXT_EXP pattern
  | AST_EXP string
  | OPTION_EXP "shapeExp list"
  | SUB_SHAPE_EXP "shapeExp list"
  | LAZY_EXP svalue

fun below :: "nat \<Rightarrow> limit \<Rightarrow> bool" where
  "below i (Finite m) = (i < m)"
| "below i Infinity = True"

fun is_TEXT_EXP :: "shapeExp \<Rightarrow> bool" where
  "is_TEXT_EXP (ShapeExp (TEXT_EXP p) rd mn mx e) = True"
| "is_TEXT_EXP g = False"

text \<open>
  The step \<^verbatim>\<open>Object.assign(this, new ShapeExp({...this, value: this.value()}))\<close> of
  \<^verbatim>\<open>ShapeExp.parse\<close>: the thunk is called once and its result becomes the value; the
  other fields stay. The assignment changes the expression in place; the model resolves
  a thunk at each parse instead of keeping the resolved expression as state.
\<close>

fun resolve_lazy :: "shapeExp \<Rightarrow> shapeExp" where
  "resolve_lazy (ShapeExp (LAZY_EXP v) rd mn mx e) = ShapeExp v rd mn mx e"
| "resolve_lazy g = g"

text \<open>
  The expression as \<^verbatim>\<open>ShapeExp.parse\<close> leaves it: the body of its loop runs at least
  once exactly when \<^verbatim>\<open>0 < max\<close>, and its first run resolves a thunk.
\<close>

definition after_parse :: "shapeExp \<Rightarrow> shapeExp" where
  "after_parse g = (if below 0 (exp_max g) then resolve_lazy g else g)"

section \<open>Tokens and nodes\<close>

record token =
  tok_type :: pattern
  tok_value :: string
  tok_start :: int
  tok_end :: int
  tok_line :: int
  tok_col :: int
  tok_indent :: int
  paddingRight :: string
  paddingLeft :: string
  isMissing :: bool
  tok_shapeExp :: "shapeExp option"

text \<open>\<^verbatim>\<open>get isWhiteSpace() { return !this.text.trim().length; }\<close>\<close>

definition isWhiteSpace :: "token \<Rightarrow> bool" where
  "isWhiteSpace t \<longleftrightarrow> \<not> (0 < length (trim (tok_value t)))"

text \<open>
  An element of \<^verbatim>\<open>exps\<close> is a \<^verbatim>\<open>Token\<close> or an \<^verbatim>\<open>$AST\<close> node; a node is its class
  name and its \<^verbatim>\<open>exps\<close>. The property \<^verbatim>\<open>shapeExp\<close> that \<^verbatim>\<open>ShapeExp.parse\<close> also
  sets on a node is read by no operation modelled here and is left out of \<open>Node\<close>.
\<close>

datatype exp = Tok token | Node string "exp list"

fun is_AST :: "exp \<Rightarrow> bool" where
  "is_AST (Node nm es) = True"
| "is_AST (Tok t) = False"

text \<open>The constructor's \<^verbatim>\<open>_tokens\<close>: the tokens of the node in order, nested ones included.\<close>

fun exp_tokens :: "exp \<Rightarrow> token list" where
  "exp_tokens (Tok t) = [t]"
| "exp_tokens (Node nm es) = concat (map exp_tokens es)"

definition tokens :: "exp list \<Rightarrow> token list" where
  "tokens es = concat (map exp_tokens es)"

fun isContentExp :: "exp \<Rightarrow> bool" where
  "isContentExp (Node nm es) = True"
| "isContentExp (Tok t) = (\<not> isWhiteSpace t)"

definition contentExps :: "exp list \<Rightarrow> exp list" where
  "contentExps es = filter isContentExp es"

definition contentTokens :: "exp list \<Rightarrow> token list" where
  "contentTokens es = filter (\<lambda>t. \<not> isWhiteSpace t) (tokens es)"

text \<open>
  The test of \<^verbatim>\<open>$AST.parse\<close> on the children gathered so far:
  \<^verbatim>\<open>exps.filter((e) => e.AST || e.value.trim().length).length\<close>.
\<close>

fun countsTowardThreshold :: "exp \<Rightarrow> bool" where
  "countsTowardThreshold (Node nm es) = True"
| "countsTowardThreshold (Tok t) = (0 < length (trim (tok_value t)))"

definition contentCount :: "exp list \<Rightarrow> nat" where
  "contentCount es = length (filter countsTowardThreshold es)"

record ASTError =
  err_line :: int
  err_col :: int
  err_message :: string

text \<open>
  \<^verbatim>\<open>validate\<close>: one \<^verbatim>\<open>ASTError\<close> for each token of the node with \<^verbatim>\<open>isMissing\<close> and
  a truthy \<^verbatim>\<open>shapeExp.e\<close>; the empty string is falsy.
\<close>

definition message_of :: "token \<Rightarrow> string option" where
  "message_of t =
     (case tok_shapeExp t of
        None \<Rightarrow> None
      | Some g \<Rightarrow> (case exp_e g of None \<Rightarrow> None | Some m \<Rightarrow> if m = [] then None else Some m))"

fun validate_token :: "token \<Rightarrow> ASTError list" where
  "validate_token t =
     (if isMissing t then
        (case message_of t of
           None \<Rightarrow> []
         | Some m \<Rightarrow> [\<lparr>err_line = tok_line t, err_col = tok_col t, err_message = m\<rparr>])
      else [])"

definition validate :: "exp list \<Rightarrow> ASTError list" where
  "validate es = concat (map validate_token (tokens es))"

section \<open>Lexer\<close>

text \<open>
  The mutable fields of a \<^verbatim>\<open>Lexer\<close> and its input. \<^verbatim>\<open>lines\<close>, \<^verbatim>\<open>lineOffsets\<close> and
  \<^verbatim>\<open>lineIndents\<close> are computed from \<^verbatim>\<open>str\<close> by the constructor and never assigned
  again: they are functions of the lexer here. The caches are used by no method below.
\<close>

record lexer =
  str :: string
  cursor :: int
  tasteCursor :: int
  cursorStack :: "int list"

definition Lexer :: "string \<Rightarrow> lexer" where
  "Lexer s = \<lparr>str = s, cursor = 0, tasteCursor = 0, cursorStack = []\<rparr>"

definition lines :: "lexer \<Rightarrow> string list" where
  "lines L = split_nl (str L)"

fun offsets_from :: "int \<Rightarrow> string list \<Rightarrow> (int \<times> int) list" where
  "offsets_from c [] = []"
| "offsets_from c (l # ls) = (c, c + int (length l)) # offsets_from (c + int (length l) + 1) ls"

definition lineOffsets :: "lexer \<Rightarrow> (int \<times> int) list" where
  "lineOffsets L = offsets_from 0 (lines L)"

definition lineIndents :: "lexer \<Rightarrow> int list" where
  "lineIndents L = map (\<lambda>l. int (length l) - int (length (trimStart l))) (lines L)"

definition hasMoreToLex :: "lexer \<Rightarrow> bool" where
  "hasMoreToLex L \<longleftrightarrow> cursor L < int (length (str L))"

definition currentLine :: "lexer \<Rightarrow> int" where
  "currentLine L =
     binarySearch (\<lambda>(start, end). if cursor L < start then - 1 else if cursor L > end then 1 else 0)
       (lineOffsets L)"

text \<open>
  Reading an array outside its bounds gives \<^verbatim>\<open>undefined\<close> (\<open>None\<close>); \<^verbatim>\<open>lineStart\<close>
  and \<^verbatim>\<open>lineEnd\<close> then read a component of \<^verbatim>\<open>undefined\<close>, which throws, and their
  \<open>None\<close> is that exception.
\<close>

definition array_at :: "'a list \<Rightarrow> int \<Rightarrow> 'a option" where
  "array_at xs i = (if 0 \<le> i \<and> i < int (length xs) then Some (xs ! nat i) else None)"

definition lineIndent :: "lexer \<Rightarrow> int \<Rightarrow> int option" where
  "lineIndent L line = array_at (lineIndents L) line"

definition lineStart :: "lexer \<Rightarrow> int \<Rightarrow> int option" where
  "lineStart L line =
     (let line' = (if line \<ge> int (length (lines L)) then int (length (lines L)) - 1 else line)
      in map_option fst (array_at (lineOffsets L) line'))"

definition lineEnd :: "lexer \<Rightarrow> int \<Rightarrow> int option" where
  "lineEnd L line =
     (let line' = (if line \<ge> int (length (lines L)) then int (length (lines L)) - 1 else line)
      in map_option snd (array_at (lineOffsets L) line'))"

definition linesInRange :: "lexer \<Rightarrow> int \<Rightarrow> int \<Rightarrow> int list" where
  "linesInRange L start end =
     map int (filter (\<lambda>i. fst (lineOffsets L ! i) \<le> end \<and> snd (lineOffsets L ! i) \<ge> start)
       [0 ..< length (lineOffsets L)])"

definition currentIndent :: "lexer \<Rightarrow> int option" where
  "currentIndent L = lineIndent L (currentLine L)"

definition pushCursor :: "lexer \<Rightarrow> lexer" where
  "pushCursor L = L\<lparr>cursorStack := cursorStack L @ [cursor L]\<rparr>"

definition popCursor :: "lexer \<Rightarrow> lexer" where
  "popCursor L =
     (if cursorStack L \<noteq> [] then
        L\<lparr>cursor := last (cursorStack L), cursorStack := butlast (cursorStack L)\<rparr>
      else L)"

text \<open>
  The loop of \<^verbatim>\<open>taste\<close> over a literal: \<open>failedMatch p s c\<close> is the flag after comparing
  the characters of \<open>p\<close> with \<open>s\<close> from index \<open>c\<close> on, stopping at the first difference.
\<close>

fun failedMatch :: "string \<Rightarrow> string \<Rightarrow> int \<Rightarrow> bool" where
  "failedMatch [] s c = False"
| "failedMatch (x # xs) s c = (if char_at s c \<noteq> Some x then True else failedMatch xs s (c + 1))"

text \<open>
  \<^verbatim>\<open>taste\<close>. The argument is a literal, a regular expression or \<^verbatim>\<open>null\<close>/\<^verbatim>\<open>undefined\<close>
  (\<open>None\<close>); the empty literal is falsy as well. The closure \<^verbatim>\<open>eatLeadingWhitespace\<close>
  is defined in the method and never called, so nothing of it appears here. The result is
  the \<^verbatim>\<open>value\<close> of the returned object.
\<close>

fun taste :: "pattern option \<Rightarrow> lexer \<Rightarrow> string option \<times> lexer" where
  "taste None L = (None, L)"
| "taste (Some (PStr p)) L =
     (if p = [] then (None, L)
      else
        (let L1 = L\<lparr>tasteCursor := cursor L\<rparr>
         in if \<not> failedMatch p (str L1) (tasteCursor L1)
            then (Some p, L1\<lparr>tasteCursor := tasteCursor L1 + int (length p)\<rparr>)
            else (None, L1)))"
| "taste (Some (PRegex r)) L =
     (let L1 = L\<lparr>tasteCursor := cursor L\<rparr>
      in case regex_exec r (str L1) (tasteCursor L1) of
           None \<Rightarrow> (None, L1)
         | Some m \<Rightarrow> (Some m, L1\<lparr>tasteCursor := tasteCursor L1 + int (length m)\<rparr>))"

text \<open>
  \<^verbatim>\<open>eat\<close>. \<^verbatim>\<open>this.lineIndents[line]\<close> is \<^verbatim>\<open>undefined\<close> when \<open>line\<close> is -1, and the
  \<^verbatim>\<open>Token\<close> constructor then takes its default 0.
\<close>

definition make_token :: "pattern \<Rightarrow> string \<Rightarrow> lexer \<Rightarrow> token option \<times> lexer" where
  "make_token p v L1 =
     (let L2 = L1\<lparr>cursor := tasteCursor L1 - int (length v)\<rparr>;
          col0 = cursor L2 - lastIndexOf (str L2) (CHR 0x0A) (cursor L2 - 1) - 1;
          col = (if col0 < 0 then 0 else col0);
          line = currentLine L2;
          tok = \<lparr>tok_type = p, tok_value = v, tok_start = cursor L2,
                 tok_end = cursor L2 + int (length v), tok_line = line, tok_col = col,
                 tok_indent = (case array_at (lineIndents L2) line of None \<Rightarrow> 0 | Some i \<Rightarrow> i),
                 paddingRight = [], paddingLeft = [],
                 isMissing = False, tok_shapeExp = None\<rparr>
      in (Some tok, L2\<lparr>cursor := cursor L2 + int (length v)\<rparr>))"

fun eat :: "pattern option \<Rightarrow> lexer \<Rightarrow> token option \<times> lexer" where
  "eat None L = (None, L)"
| "eat (Some (PStr [])) L = (None, L)"
| "eat (Some p) L =
     (case taste (Some p) L of
        (None, L1) \<Rightarrow> (None, L1)
      | (Some v, L1) \<Rightarrow> make_token p v L1)"

section \<open>Node kinds and the outcome of a parse\<close>

text \<open>
  A node kind is a class derived from \<^verbatim>\<open>$AST\<close>: its name, the static \<^verbatim>\<open>parse\<close> it
  inherits (that of \<^verbatim>\<open>$AST\<close>, \<^verbatim>\<open>$AST_LEFT_RECURSIVE\<close>, \<^verbatim>\<open>$INDENT_BLOCK\<close> or
  \<^verbatim>\<open>$EXP\<close>), its \<^verbatim>\<open>SHAPE\<close> and its three policy fields. A grammar gives the class
  of every name that a shape refers to.
\<close>

datatype driver = DRIVER_AST | DRIVER_LEFT_RECURSIVE | DRIVER_INDENT_BLOCK | DRIVER_EXP

record ast_class =
  className :: string
  parseMethod :: driver
  SHAPE :: "shapeExp list"
  fallbackToFirstExp :: bool
  allowIncompleteParse :: bool
  incompleteParseThreshold :: int

type_synonym grammar = "string \<Rightarrow> ast_class"

text \<open>The defaults of \<^verbatim>\<open>$AST\<close>, inherited by a class that does not override them.\<close>

definition AST_class :: "string \<Rightarrow> shapeExp list \<Rightarrow> ast_class" where
  "AST_class nm shape =
     \<lparr>className = nm, parseMethod = DRIVER_AST, SHAPE = shape, fallbackToFirstExp = True,
      allowIncompleteParse = False, incompleteParseThreshold = 1\<rparr>"

text \<open>
  The class that \<^verbatim>\<open>ShapeExp.parse\<close> makes for a sub-shape:
  \<^verbatim>\<open>const $SUB_SHAPE_AST = class extends $AST {}; $SUB_SHAPE_AST.SHAPE = this.value;\<close>
\<close>

definition SUB_SHAPE_AST :: "shapeExp list \<Rightarrow> ast_class" where
  "SUB_SHAPE_AST shape = AST_class ''$SUB_SHAPE_AST'' shape"

text \<open>
  The class that the left-recursive driver makes for the tail: \<^verbatim>\<open>SHAPE.slice(1)\<close> as
  its shape, \<^verbatim>\<open>allowIncompleteParse\<close> of the driven class, the other fields of \<^verbatim>\<open>$AST\<close>.
\<close>

definition RIGHT :: "ast_class \<Rightarrow> ast_class" where
  "RIGHT this = (AST_class ''$RIGHT'' (tl (SHAPE this)))\<lparr>allowIncompleteParse := allowIncompleteParse this\<rparr>"

text \<open>
  A call returns a value and the lexer as it left it, throws (a \<^verbatim>\<open>TypeError\<close> is the
  only exception these methods can raise), or does not return within the fuel given.
\<close>

datatype 'a run = Diverged | Threw | Returned 'a lexer

section \<open>ShapeExp.parse and the parse methods\<close>

text \<open>\<^verbatim>\<open>while (_.taste(WHITESPACE_REGEX)) results.push(_.eat(WHITESPACE_REGEX));\<close>\<close>

lemma whitespace_matcher_Some:
  assumes "whitespace_matcher s i = Some n"
  shows "0 < n \<and> i < length s"
proof (cases "0 < length (takeWhile (\<lambda>c. c = CHR 0x20) (drop i s))")
  case True
  then have "drop i s \<noteq> []" by auto
  with assms True show ?thesis
    by (auto simp: whitespace_matcher_def Let_def split: if_splits)
next
  case False
  with assms show ?thesis
    by (auto simp: whitespace_matcher_def Let_def char_at_def split: if_splits)
qed

lemma taste_WHITESPACE_REGEX:
  assumes "taste (Some (PRegex WHITESPACE_REGEX)) L = (Some v, L1)"
  shows "v \<noteq> [] \<and> cursor L < int (length (str L)) \<and> cursor L1 = cursor L \<and>
         str L1 = str L \<and> tasteCursor L1 = cursor L + int (length v)"
proof -
  let ?li = "nat (max (cursor L) 0)"
  from assms obtain n where n: "whitespace_matcher (str L) ?li = Some n"
    and v: "v = take n (drop ?li (str L))"
    and L1: "L1 = L\<lparr>tasteCursor := cursor L + int (length v)\<rparr>"
    by (auto simp: WHITESPACE_REGEX_def regex_exec_def match_text_def Let_def
        split: option.splits if_splits)
  from whitespace_matcher_Some [OF n] have "0 < n" "?li < length (str L)" by auto
  then have "v \<noteq> []" "cursor L < int (length (str L))" using v by auto
  with L1 show ?thesis by simp
qed

function whitespace_loop :: "exp list \<Rightarrow> lexer \<Rightarrow> exp list \<times> lexer" where
  "whitespace_loop results L =
     (case taste (Some (PRegex WHITESPACE_REGEX)) L of
        (None, L1) \<Rightarrow> (results, L1)
      | (Some v, L1) \<Rightarrow>
          (case eat (Some (PRegex WHITESPACE_REGEX)) L1 of
             (None, L2) \<Rightarrow> (results, L2)
           | (Some t, L2) \<Rightarrow> whitespace_loop (results @ [Tok t]) L2))"
  by pat_completeness auto
termination
proof (relation "measure (\<lambda>(results, L). nat (int (length (str L)) - cursor L))")
  show "wf (measure (\<lambda>(results :: exp list, L). nat (int (length (str L)) - cursor L)))"
    by simp
next
  fix results :: "exp list" and L x L1 v y L2 t
  assume "(x, L1) = taste (Some (PRegex WHITESPACE_REGEX)) L" and "x = Some v"
    and "(y, L2) = eat (Some (PRegex WHITESPACE_REGEX)) L1" and "y = Some t"
  then have a: "taste (Some (PRegex WHITESPACE_REGEX)) L = (Some v, L1)"
    and b: "eat (Some (PRegex WHITESPACE_REGEX)) L1 = (Some t, L2)"
    by simp_all
  note A = taste_WHITESPACE_REGEX [OF a]
  from b obtain w L1' where c: "taste (Some (PRegex WHITESPACE_REGEX)) L1 = (Some w, L1')"
    and d: "make_token (PRegex WHITESPACE_REGEX) w L1' = (Some t, L2)"
    by (auto split: prod.splits option.splits)
  note B = taste_WHITESPACE_REGEX [OF c]
  from d B have "cursor L2 = cursor L1 + int (length w)" "str L2 = str L1"
    by (auto simp: make_token_def Let_def)
  with A B show "((results @ [Tok t], L2), (results, L))
      \<in> measure (\<lambda>(results, L). nat (int (length (str L)) - cursor L))"
    by (cases w) auto
qed

declare whitespace_loop.simps [simp del]

text \<open>
  The loop at the start of \<^verbatim>\<open>$INDENT_BLOCK.parse\<close>:
  \<^verbatim>\<open>do _.cursor--; while (_.str[_.cursor] && !_.str[_.cursor].trim());\<close>
\<close>

function back_over_whitespace :: "string \<Rightarrow> int \<Rightarrow> int" where
  "back_over_whitespace s c =
     (case char_at s (c - 1) of
        None \<Rightarrow> c - 1
      | Some ch \<Rightarrow> if isWhiteSpaceChar ch then back_over_whitespace s (c - 1) else c - 1)"
  by pat_completeness auto
termination
  by (relation "measure (\<lambda>(s, c). nat c)") (auto simp: char_at_def split: if_splits)

declare back_over_whitespace.simps [simp del]

text \<open>\<^verbatim>\<open>result.shapeExp = {}; Object.assign(result.shapeExp, this);\<close> on one result.\<close>

fun with_shapeExp :: "shapeExp \<Rightarrow> exp \<Rightarrow> exp" where
  "with_shapeExp g (Tok t) = Tok (t\<lparr>tok_shapeExp := Some g\<rparr>)"
| "with_shapeExp g (Node nm es) = Node nm es"

text \<open>
  The test before a node reference is parsed:
  \<^verbatim>\<open>firstShapeExp && typeof firstShapeExp === "object" && firstShapeExp.TEXT_EXP &&
  !_.taste(firstShapeExp.value)\<close>, with the lexer after it. The expression is read as
  the constructor made it. The two readings differ for one kind of class only, one whose
  first expression is a thunk that returns a literal or a pattern: once a parse of the
  class has resolved the thunk in place, \<^verbatim>\<open>TEXT_EXP\<close> is set on it and later
  references make this test, which the model makes for no such class (for every other
  expression the test is the same before and after, \<open>lead_fails_resolve_lazy\<close> below).
\<close>

fun lead_fails :: "shapeExp list \<Rightarrow> lexer \<Rightarrow> bool \<times> lexer" where
  "lead_fails (ShapeExp (TEXT_EXP p) rd mn mx e # gs) L =
     (case taste (Some p) L of (None, L1) \<Rightarrow> (True, L1) | (Some v, L1) \<Rightarrow> (False, L1))"
| "lead_fails gs L = (False, L)"

text \<open>
  The synthetic token of \<^verbatim>\<open>$AST.parse\<close>:
  \<^verbatim>\<open>const token = new Token(_.eat(new RegExp())); token.isMissing = true;
  token.shapeExp = shapeExp;\<close>
\<close>

definition missing_token :: "shapeExp \<Rightarrow> lexer \<Rightarrow> token option \<times> lexer" where
  "missing_token shapeExp L =
     (case eat (Some (PRegex empty_RegExp)) L of
        (None, L1) \<Rightarrow> (None, L1)
      | (Some t, L1) \<Rightarrow> (Some (t\<lparr>isMissing := True, tok_shapeExp := Some shapeExp\<rparr>), L1))"

text \<open>
  The closure \<^verbatim>\<open>isIndented\<close> of \<^verbatim>\<open>$INDENT_BLOCK.parse\<close>. A comparison with
  \<^verbatim>\<open>undefined\<close> is false.
\<close>

definition isIndented :: "int option \<Rightarrow> lexer \<Rightarrow> bool \<times> lexer" where
  "isIndented baseIndent L =
     (case whitespace_loop [] (pushCursor L) of
        (ws, L1) \<Rightarrow>
          (case eat (Some (PRegex NONSPACE_REGEX)) L1 of
             (nextToken, L2) \<Rightarrow>
               ((case nextToken of
                   None \<Rightarrow> False
                 | Some t \<Rightarrow> (case baseIndent of None \<Rightarrow> False | Some b \<Rightarrow> tok_indent t > b)),
                popCursor L2)))"

text \<open>The end of \<^verbatim>\<open>$INDENT_BLOCK.parse\<close>: \<^verbatim>\<open>if (!exps.length) return null; return new this({ exps });\<close>\<close>

fun block_result :: "ast_class \<Rightarrow> exp list \<Rightarrow> exp option" where
  "block_result this [] = None"
| "block_result this exps = Some (Node (className this) exps)"

text \<open>
  The rebuilding step of \<^verbatim>\<open>$EXP.parse\<close> on the \<^verbatim>\<open>exps\<close> of the parsed node: the first
  node among them is replaced by its own \<^verbatim>\<open>exps\<close> and gives the class of the result;
  \<open>None\<close> when there is none (\<^verbatim>\<open>ast\<close> is \<^verbatim>\<open>undefined\<close> and \<^verbatim>\<open>ast.constructor\<close> throws).
\<close>

fun unwrap_first_AST :: "exp list \<Rightarrow> exp list \<Rightarrow> exp option" where
  "unwrap_first_AST leading [] = None"
| "unwrap_first_AST leading (Tok t # es) = unwrap_first_AST (leading @ [Tok t]) es"
| "unwrap_first_AST leading (Node nm es' # es) = Some (Node nm (leading @ es' @ es))"

text \<open>
  The methods call each other, and a grammar can make them loop for ever. Each method
  below takes the methods it calls in a nested position as a parameter \<open>P\<close> (the parse
  of an alternative, of a sub-shape's class and of a referenced class), and the loops
  that need not end take fuel, one unit for each iteration, with \<open>Diverged\<close> as the
  answer when none is left. \<open>methods\<close> further down ties the two together.
\<close>

record calls =
  call_ShapeExp_parse :: "shapeExp \<Rightarrow> lexer \<Rightarrow> exp list option run"
  call_AST_parse :: "ast_class \<Rightarrow> lexer \<Rightarrow> exp option run"
  call_class_parse :: "ast_class \<Rightarrow> lexer \<Rightarrow> exp option run"

text \<open>
  The loop over the alternatives of an \<^verbatim>\<open>OPTION_EXP\<close>:
  \<^verbatim>\<open>for (let i = 0; i < this.value.length && !result; i++)\<close>. Each alternative is a
  \<^verbatim>\<open>ShapeExp\<close>, never lexable, so the branch \<^verbatim>\<open>_.eat(this.value)\<close> is dead and the
  body is \<^verbatim>\<open>result = this.value[i].parse(_)\<close>; an array, even an empty one, is truthy.
\<close>

fun OPTION_loop :: "calls \<Rightarrow> shapeExp list \<Rightarrow> lexer \<Rightarrow> exp list option run" where
  "OPTION_loop P [] L = Returned None L"
| "OPTION_loop P (g # gs) L =
     (case call_ShapeExp_parse P g L of
        Diverged \<Rightarrow> Diverged
      | Threw \<Rightarrow> Threw
      | Returned None L1 \<Rightarrow> OPTION_loop P gs L1
      | Returned (Some result) L1 \<Rightarrow> Returned (Some result) L1)"

text \<open>
  The chain of \<^verbatim>\<open>if\<close>s of \<^verbatim>\<open>ShapeExp.parse\<close> that computes \<^verbatim>\<open>result\<close>, together with
  \<^verbatim>\<open>result.shapeExp = ...\<close>; the result is given as the children that the method then
  pushes. In the sub-shape branch \<^verbatim>\<open>this[0]\<close> is \<^verbatim>\<open>undefined\<close> (a \<^verbatim>\<open>ShapeExp\<close> has no
  element 0), so the sub-shape's class is always parsed; \<^verbatim>\<open>ast.exps\<close> of a token is
  \<^verbatim>\<open>undefined\<close>. A thunk that returned a thunk matches no branch.
\<close>

definition ShapeExp_result :: "grammar \<Rightarrow> calls \<Rightarrow> shapeExp \<Rightarrow> lexer \<Rightarrow> exp list option run" where
  "ShapeExp_result G P this L =
     (case exp_value this of
        TEXT_EXP p \<Rightarrow>
          (case eat (Some p) L of
             (None, L1) \<Rightarrow> Returned None L1
           | (Some t, L1) \<Rightarrow> Returned (Some [with_shapeExp this (Tok t)]) L1)
      | AST_EXP c \<Rightarrow>
          (case lead_fails (SHAPE (G c)) L of
             (True, L1) \<Rightarrow> Returned None L1
           | (False, L1) \<Rightarrow>
               (case call_class_parse P (G c) L1 of
                  Diverged \<Rightarrow> Diverged
                | Threw \<Rightarrow> Threw
                | Returned None L2 \<Rightarrow> Returned None L2
                | Returned (Some r) L2 \<Rightarrow> Returned (Some [with_shapeExp this r]) L2))
      | OPTION_EXP gs \<Rightarrow> OPTION_loop P gs L
      | SUB_SHAPE_EXP gs \<Rightarrow>
          (case call_AST_parse P (SUB_SHAPE_AST gs) L of
             Diverged \<Rightarrow> Diverged
           | Threw \<Rightarrow> Threw
           | Returned None L1 \<Rightarrow> Returned None L1
           | Returned (Some (Tok t)) L1 \<Rightarrow> Returned None L1
           | Returned (Some (Node nm exps)) L1 \<Rightarrow> Returned (Some exps) L1)
      | LAZY_EXP v \<Rightarrow> Returned None L)"

text \<open>
  The \<^verbatim>\<open>for\<close> loop of \<^verbatim>\<open>ShapeExp.parse\<close>, from the test of its condition on:
  \<^verbatim>\<open>expIndex < this.max && (!_.taste(this.rightDelimeter) || expIndex === 0)\<close>.
\<close>

fun ShapeExp_loop ::
  "grammar \<Rightarrow> calls \<Rightarrow> nat \<Rightarrow> shapeExp \<Rightarrow> int \<Rightarrow> nat \<Rightarrow> exp list \<Rightarrow> lexer \<Rightarrow> exp list option run"
where
  "ShapeExp_loop G P 0 this startCursor expIndex results L = Diverged"
| "ShapeExp_loop G P (Suc n) this startCursor expIndex results L =
     (if \<not> below expIndex (exp_max this) then Returned (Some results) L
      else
        (case taste (rightDelimeter this) L of
           (sighted, L1) \<Rightarrow>
             if (case sighted of None \<Rightarrow> False | Some v \<Rightarrow> True) \<and> expIndex \<noteq> 0
             then Returned (Some results) L1
             else
               (case whitespace_loop results L1 of
                  (results1, L2) \<Rightarrow>
                    (case ShapeExp_result G P (resolve_lazy this) L2 of
                       Diverged \<Rightarrow> Diverged
                     | Threw \<Rightarrow> Threw
                     | Returned (Some result) L3 \<Rightarrow>
                         ShapeExp_loop G P n (resolve_lazy this) startCursor (expIndex + 1)
                           (results1 @ result) L3
                     | Returned None L3 \<Rightarrow>
                         if expIndex \<ge> exp_min this then Returned (Some results1) L3
                         else Returned None (L3\<lparr>cursor := startCursor\<rparr>)))))"

definition ShapeExp_parse ::
  "grammar \<Rightarrow> calls \<Rightarrow> nat \<Rightarrow> shapeExp \<Rightarrow> lexer \<Rightarrow> exp list option run"
where
  "ShapeExp_parse G P n this L = ShapeExp_loop G P n this (cursor L) 0 [] L"

text \<open>
  \<^verbatim>\<open>$AST.parse\<close> applied to the class \<open>this\<close>, and its loop over the shape.
  \<^verbatim>\<open>results[0]\<close> of an empty array is \<^verbatim>\<open>undefined\<close>; \<^verbatim>\<open>shapeExp.TEXT_EXP\<close> is read
  after \<^verbatim>\<open>shapeExp.parse\<close> has run; \<^verbatim>\<open>new Token(null)\<close> throws.
\<close>

function AST_loop ::
  "grammar \<Rightarrow> calls \<Rightarrow> nat \<Rightarrow> ast_class \<Rightarrow> int \<Rightarrow> exp option \<Rightarrow> int \<Rightarrow> exp list \<Rightarrow> nat \<Rightarrow> lexer
    \<Rightarrow> exp option run"
where
  "AST_loop G P n this startCursor firstExp firstExpCursor exps shapeIndex L =
     (if \<not> shapeIndex < length (SHAPE this) then Returned (Some (Node (className this) exps)) L
      else
        (case ShapeExp_parse G P n (SHAPE this ! shapeIndex) L of
           Diverged \<Rightarrow> Diverged
         | Threw \<Rightarrow> Threw
         | Returned (Some results) L1 \<Rightarrow>
             (let isFirstAST = (\<not> is_TEXT_EXP (after_parse (SHAPE this ! shapeIndex)) \<and> shapeIndex = 0)
              in AST_loop G P n this startCursor
                   (if isFirstAST then array_at results 0 else firstExp)
                   (if isFirstAST then cursor L1 else firstExpCursor)
                   (exps @ results) (shapeIndex + 1) L1)
         | Returned None L1 \<Rightarrow>
             if allowIncompleteParse this \<and> int (contentCount exps) \<ge> incompleteParseThreshold this
             then
               (case missing_token (after_parse (SHAPE this ! shapeIndex)) L1 of
                  (None, L2) \<Rightarrow> Threw
                | (Some token, L2) \<Rightarrow>
                    AST_loop G P n this startCursor firstExp firstExpCursor (exps @ [Tok token])
                      (shapeIndex + 1) L2)
             else if fallbackToFirstExp this then Returned firstExp (L1\<lparr>cursor := firstExpCursor\<rparr>)
             else Returned None (L1\<lparr>cursor := startCursor\<rparr>)))"
  by pat_completeness auto
termination
  by (relation "measure (\<lambda>(G, P, n, this, startCursor, firstExp, firstExpCursor, exps, shapeIndex, L).
        length (SHAPE this) - shapeIndex)") auto

declare AST_loop.simps [simp del]

definition AST_parse :: "grammar \<Rightarrow> calls \<Rightarrow> nat \<Rightarrow> ast_class \<Rightarrow> lexer \<Rightarrow> exp option run" where
  "AST_parse G P n this L = AST_loop G P n this (cursor L) None (cursor L) [] 0 L"

text \<open>
  \<^verbatim>\<open>$AST_LEFT_RECURSIVE.parse\<close>. \<^verbatim>\<open>this.SHAPE[0]\<close> of an empty shape is \<^verbatim>\<open>undefined\<close>
  and the call on it throws; so do the spread of \<^verbatim>\<open>$right.exps\<close> when \<^verbatim>\<open>$right\<close> is a
  token and the construction of a node whose first child is \<^verbatim>\<open>undefined\<close>.
\<close>

fun LEFT_RECURSIVE_loop ::
  "grammar \<Rightarrow> calls \<Rightarrow> nat \<Rightarrow> ast_class \<Rightarrow> int \<Rightarrow> exp option \<Rightarrow> lexer \<Rightarrow> exp option run"
where
  "LEFT_RECURSIVE_loop G P 0 this leftCursor left L = Diverged"
| "LEFT_RECURSIVE_loop G P (Suc n) this leftCursor left L =
     (case SHAPE this of
        [] \<Rightarrow> Threw
      | shape0 # tail \<Rightarrow>
          (case taste (rightDelimeter shape0) L of
             (None, L1) \<Rightarrow> Returned left L1
           | (Some v, L1) \<Rightarrow>
               (case AST_parse G P n (RIGHT this) L1 of
                  Diverged \<Rightarrow> Diverged
                | Threw \<Rightarrow> Threw
                | Returned None L2 \<Rightarrow> Returned left (L2\<lparr>cursor := leftCursor\<rparr>)
                | Returned (Some (Tok t)) L2 \<Rightarrow> Threw
                | Returned (Some (Node nm exps)) L2 \<Rightarrow>
                    (case left of
                       None \<Rightarrow> Threw
                     | Some l \<Rightarrow>
                         LEFT_RECURSIVE_loop G P n this leftCursor
                           (Some (Node (className this) (l # exps))) L2))))"

definition LEFT_RECURSIVE_parse ::
  "grammar \<Rightarrow> calls \<Rightarrow> nat \<Rightarrow> ast_class \<Rightarrow> lexer \<Rightarrow> exp option run"
where
  "LEFT_RECURSIVE_parse G P n this L =
     (case SHAPE this of
        [] \<Rightarrow> Threw
      | shape0 # tail \<Rightarrow>
          (case ShapeExp_parse G P n shape0 L of
             Diverged \<Rightarrow> Diverged
           | Threw \<Rightarrow> Threw
           | Returned None L1 \<Rightarrow> Returned None L1
           | Returned (Some results) L1 \<Rightarrow>
               LEFT_RECURSIVE_loop G P n this (cursor L1) (array_at results 0) L1))"

text \<open>\<^verbatim>\<open>$INDENT_BLOCK.parse\<close>: its \<^verbatim>\<open>while\<close> loop, then the method.\<close>

fun INDENT_BLOCK_loop ::
  "grammar \<Rightarrow> calls \<Rightarrow> nat \<Rightarrow> ast_class \<Rightarrow> int option \<Rightarrow> exp list \<Rightarrow> lexer \<Rightarrow> exp option run"
where
  "INDENT_BLOCK_loop G P 0 this baseIndent exps L = Diverged"
| "INDENT_BLOCK_loop G P (Suc n) this baseIndent exps L =
     (if \<not> hasMoreToLex L then Returned (block_result this exps) L
      else
        (case isIndented baseIndent L of
           (False, L1) \<Rightarrow> Returned (block_result this exps) L1
         | (True, L1) \<Rightarrow>
             (case AST_parse G P n this L1 of
                Diverged \<Rightarrow> Diverged
              | Threw \<Rightarrow> Threw
              | Returned None L2 \<Rightarrow> Returned (block_result this exps) L2
              | Returned (Some (Tok t)) L2 \<Rightarrow> Threw
              | Returned (Some (Node nm exps')) L2 \<Rightarrow>
                  INDENT_BLOCK_loop G P n this baseIndent (exps @ exps') L2)))"

definition INDENT_BLOCK_parse ::
  "grammar \<Rightarrow> calls \<Rightarrow> nat \<Rightarrow> ast_class \<Rightarrow> lexer \<Rightarrow> exp option run"
where
  "INDENT_BLOCK_parse G P n this L =
     (let L1 = pushCursor L;
          L2 = L1\<lparr>cursor := back_over_whitespace (str L1) (cursor L1)\<rparr>
      in case eat (Some (PRegex NONSPACE_REGEX)) L2 of
           (prevToken, L3) \<Rightarrow>
             (let L4 = popCursor L3;
                  baseIndent =
                    (case prevToken of Some t \<Rightarrow> Some (tok_indent t) | None \<Rightarrow> currentIndent L4)
              in case prevToken of
                   None \<Rightarrow> INDENT_BLOCK_loop G P n this baseIndent [] L4
                 | Some t \<Rightarrow>
                     if tok_line t = currentLine L4 then
                       (case AST_parse G P n this L4 of
                          Diverged \<Rightarrow> Diverged
                        | Threw \<Rightarrow> Threw
                        | Returned None L5 \<Rightarrow> Returned None L5
                        | Returned (Some exp) L5 \<Rightarrow> Returned (Some (Node (className this) [exp])) L5)
                     else if (case currentIndent L4 of None \<Rightarrow> False | Some i \<Rightarrow> i \<le> tok_indent t)
                     then Returned None L4
                     else INDENT_BLOCK_loop G P n this baseIndent [] L4))"

text \<open>
  \<^verbatim>\<open>$EXP.parse\<close>. \<^verbatim>\<open>$exp.exps\<close> of a token is \<^verbatim>\<open>undefined\<close>, and \<^verbatim>\<open>findIndex\<close> on it throws.
\<close>

definition EXP_parse :: "grammar \<Rightarrow> calls \<Rightarrow> nat \<Rightarrow> ast_class \<Rightarrow> lexer \<Rightarrow> exp option run" where
  "EXP_parse G P n this L =
     (case AST_parse G P n this L of
        Diverged \<Rightarrow> Diverged
      | Threw \<Rightarrow> Threw
      | Returned None L1 \<Rightarrow> Returned None L1
      | Returned (Some (Tok t)) L1 \<Rightarrow> Threw
      | Returned (Some (Node nm exps)) L1 \<Rightarrow>
          (case unwrap_first_AST [] exps of
             None \<Rightarrow> Threw
           | Some exp \<Rightarrow> Returned (Some exp) L1))"

text \<open>The call \<^verbatim>\<open>parse(_)\<close> on a class runs the method the class inherits.\<close>

definition class_parse :: "grammar \<Rightarrow> calls \<Rightarrow> nat \<Rightarrow> ast_class \<Rightarrow> lexer \<Rightarrow> exp option run" where
  "class_parse G P n this L =
     (case parseMethod this of
        DRIVER_AST \<Rightarrow> AST_parse G P n this L
      | DRIVER_LEFT_RECURSIVE \<Rightarrow> LEFT_RECURSIVE_parse G P n this L
      | DRIVER_INDENT_BLOCK \<Rightarrow> INDENT_BLOCK_parse G P n this L
      | DRIVER_EXP \<Rightarrow> EXP_parse G P n this L)"

text \<open>
  The methods with fuel \<open>n\<close>: nested calls go to the methods with one unit less, and
  with no fuel a call does not return.
\<close>

primrec methods :: "grammar \<Rightarrow> nat \<Rightarrow> calls" where
  "methods G 0 =
     \<lparr>call_ShapeExp_parse = (\<lambda>this L. Diverged), call_AST_parse = (\<lambda>this L. Diverged),
      call_class_parse = (\<lambda>this L. Diverged)\<rparr>"
| "methods G (Suc n) =
     \<lparr>call_ShapeExp_parse = ShapeExp_parse G (methods G n) n,
      call_AST_parse = AST_parse G (methods G n) n,
      call_class_parse = class_parse G (methods G n) n\<rparr>"

text \<open>\<^verbatim>\<open>C.parse(lexer)\<close> for the class \<open>this\<close> of the grammar, with fuel \<open>n\<close>.\<close>

definition parse :: "grammar \<Rightarrow> nat \<Rightarrow> ast_class \<Rightarrow> lexer \<Rightarrow> exp option run" where
  "parse G n this L = class_parse G (methods G n) n this L"

text \<open>
  One run of the loop of \<^verbatim>\<open>$AST.parse\<close> that goes on to the next shape position,
  as a relation between the \<^verbatim>\<open>exps\<close>, \<^verbatim>\<open>shapeIndex\<close> and lexer before and after
  it: the expression at the position matched, or it failed and a missing token was
  appended. It is used to say that the loop has reached a position.
\<close>

inductive AST_continues ::
  "grammar \<Rightarrow> calls \<Rightarrow> nat \<Rightarrow> ast_class \<Rightarrow> exp list \<times> nat \<times> lexer \<Rightarrow> exp list \<times> nat \<times> lexer \<Rightarrow> bool"
  for G P n this
where
  matched:
    "shapeIndex < length (SHAPE this) \<Longrightarrow>
     ShapeExp_parse G P n (SHAPE this ! shapeIndex) L = Returned (Some results) L1 \<Longrightarrow>
     AST_continues G P n this (exps, shapeIndex, L) (exps @ results, shapeIndex + 1, L1)"
| missing:
    "shapeIndex < length (SHAPE this) \<Longrightarrow>
     ShapeExp_parse G P n (SHAPE this ! shapeIndex) L = Returned None L1 \<Longrightarrow>
     allowIncompleteParse this \<Longrightarrow>
     incompleteParseThreshold this \<le> int (contentCount exps) \<Longrightarrow>
     missing_token (after_parse (SHAPE this ! shapeIndex)) L1 = (Some token, L2) \<Longrightarrow>
     AST_continues G P n this (exps, shapeIndex, L) (exps @ [Tok token], shapeIndex + 1, L2)"

text \<open>
  Two predicates for the statements below. \<open>advances L L'\<close>: the lexer \<open>L'\<close> reads the
  same input as \<open>L\<close>, has the same cursor stack, and its cursor is not before that of
  \<open>L\<close>. \<open>sound_calls P\<close>: every nested call that returns has advanced the lexer.
\<close>

definition advances :: "lexer \<Rightarrow> lexer \<Rightarrow> bool" where
  "advances L L' \<longleftrightarrow> str L' = str L \<and> cursorStack L' = cursorStack L \<and> cursor L \<le> cursor L'"

definition sound_calls :: "calls \<Rightarrow> bool" where
  "sound_calls P \<longleftrightarrow>
     (\<forall>g L r L'. call_ShapeExp_parse P g L = Returned r L' \<longrightarrow> advances L L') \<and>
     (\<forall>c L r L'. call_AST_parse P c L = Returned r L' \<longrightarrow> advances L L') \<and>
     (\<forall>c L r L'. call_class_parse P c L = Returned r L' \<longrightarrow> advances L L')"

section \<open>The grammar of the README and three small kinds\<close>

text \<open>
  \<^verbatim>\<open>class $NUMBER extends $AST { static SHAPE = new Shape(/^\d+/); }\<close> and
  \<^verbatim>\<open>class $ADD extends $AST { static SHAPE = new Shape($NUMBER, "+", $NUMBER); }\<close>, as
  the constructors build them: the expression loses its \<^verbatim>\<open>^\<close> and becomes sticky,
  \<^verbatim>\<open>min\<close> and \<^verbatim>\<open>max\<close> are 1, and the literal \<^verbatim>\<open>"+"\<close> that follows the first
  \<^verbatim>\<open>$NUMBER\<close> is also its \<^verbatim>\<open>rightDelimeter\<close>.
\<close>

definition digits_matcher :: "string \<Rightarrow> nat \<Rightarrow> nat option" where
  "digits_matcher s i =
     (let n = length (takeWhile (\<lambda>c. c \<in> set ''0123456789'') (drop i s))
      in if 0 < n then Some n else None)"

definition DIGITS :: regex where
  "DIGITS = RegExp True False digits_matcher"

definition new_ShapeExp :: "svalue \<Rightarrow> pattern option \<Rightarrow> shapeExp" where
  "new_ShapeExp v rd = ShapeExp v rd 1 (Finite 1) None"

definition NUMBER :: ast_class where
  "NUMBER = AST_class ''$NUMBER'' [new_ShapeExp (TEXT_EXP (PRegex DIGITS)) None]"

definition ADD :: ast_class where
  "ADD = AST_class ''$ADD''
     [new_ShapeExp (AST_EXP ''$NUMBER'') (Some (PStr ''+'')),
      new_ShapeExp (TEXT_EXP (PStr ''+'')) None,
      new_ShapeExp (AST_EXP ''$NUMBER'') None]"

definition README_grammar :: grammar where
  "README_grammar nm = (if nm = ''$NUMBER'' then NUMBER else if nm = ''$ADD'' then ADD else AST_class nm [])"

text \<open>
  \<open>ADD_INCOMPLETE\<close> is \<^verbatim>\<open>$ADD\<close> with \<^verbatim>\<open>allowIncompleteParse = true\<close>,
  \<^verbatim>\<open>incompleteParseThreshold = 2\<close> and the limit descriptor
  \<^verbatim>\<open>{ min: 1, e: "number expected" }\<close> after its last \<^verbatim>\<open>$NUMBER\<close>; \<open>ADD_LEFT\<close> is
  \<^verbatim>\<open>$ADD\<close> derived from \<^verbatim>\<open>$AST_LEFT_RECURSIVE\<close>. \<open>OPTIONAL_A\<close> is the expression of
  \<^verbatim>\<open>new Shape("a", { min: 0 })\<close>, \<open>A_THEN_C\<close> is \<^verbatim>\<open>new Shape(["a"], "c")\<close>, and
  \<open>GROUPED\<close> has the shape \<^verbatim>\<open>new Shape(new Shape(["a"], "c"), { min: 0 }, "z")\<close>.
\<close>

definition ADD_INCOMPLETE :: ast_class where
  "ADD_INCOMPLETE =
     \<lparr>className = ''$ADD'', parseMethod = DRIVER_AST,
      SHAPE =
        [new_ShapeExp (AST_EXP ''$NUMBER'') (Some (PStr ''+'')),
         new_ShapeExp (TEXT_EXP (PStr ''+'')) None,
         ShapeExp (AST_EXP ''$NUMBER'') None 1 (Finite 1) (Some ''number expected'')],
      fallbackToFirstExp = True, allowIncompleteParse = True, incompleteParseThreshold = 2\<rparr>"

definition ADD_LEFT :: ast_class where
  "ADD_LEFT = ADD\<lparr>parseMethod := DRIVER_LEFT_RECURSIVE\<rparr>"


definition A_THEN_C :: "shapeExp list" where
  "A_THEN_C =
     [new_ShapeExp (OPTION_EXP [new_ShapeExp (TEXT_EXP (PStr ''a'')) None]) (Some (PStr ''c'')),
      new_ShapeExp (TEXT_EXP (PStr ''c'')) None]"

definition GROUPED :: ast_class where
  "GROUPED = AST_class ''$GROUPED''
     [ShapeExp (SUB_SHAPE_EXP A_THEN_C) (Some (PStr ''z'')) 0 (Finite 1) None,
      new_ShapeExp (TEXT_EXP (PStr ''z'')) None]"


text \<open>\<open>NUMBER_THEN_PLUS\<close> is \<^verbatim>\<open>new Shape($NUMBER, "+")\<close>.\<close>

definition NUMBER_THEN_PLUS :: "shapeExp list" where
  "NUMBER_THEN_PLUS =
     [new_ShapeExp (AST_EXP ''$NUMBER'') (Some (PStr ''+'')),
      new_ShapeExp (TEXT_EXP (PStr ''+'')) None]"

section \<open>Lines of the input, for the statements about positions\<close>

text \<open>
  \<open>join_nl\<close> puts lines together again with a newline between them, and
  \<open>line_offset ls i\<close> is the number of characters before line \<open>i\<close> of \<open>ls\<close>: the lines
  before it and one newline after each. They describe what \<^verbatim>\<open>lineOffsets\<close> holds.
\<close>

fun join_nl :: "string list \<Rightarrow> string" where
  "join_nl [] = []"
| "join_nl [l] = l"
| "join_nl (l # l' # ls) = l @ CHR 0x0A # join_nl (l' # ls)"

fun line_offset :: "string list \<Rightarrow> nat \<Rightarrow> nat" where
  "line_offset ls 0 = 0"
| "line_offset ls (Suc i) = line_offset ls i + length (ls ! i) + 1"

text \<open>\<^verbatim>\<open>/cd/\<close>, a regular expression without the sticky or the global flag.\<close>

definition cd_matcher :: "string \<Rightarrow> nat \<Rightarrow> nat option" where
  "cd_matcher s i = (if take 2 (drop i s) = ''cd'' then Some 2 else None)"

definition CD_UNANCHORED :: regex where
  "CD_UNANCHORED = RegExp False False cd_matcher"


section \<open>Facts about the lexer's primitives\<close>

lemma failedMatch_iff:
  "failedMatch p s c \<longleftrightarrow> (\<exists>i<length p. char_at s (c + int i) \<noteq> Some (p ! i))"
proof (induction p arbitrary: c)
  case Nil
  then show ?case by simp
next
  case (Cons x xs)
  have "(\<exists>i<length (x # xs). char_at s (c + int i) \<noteq> Some ((x # xs) ! i)) \<longleftrightarrow>
        char_at s c \<noteq> Some x \<or> (\<exists>i<length xs. char_at s (c + 1 + int i) \<noteq> Some (xs ! i))"
    by (simp add: Ex_less_Suc2 ac_simps)
  also have "\<dots> \<longleftrightarrow> char_at s c \<noteq> Some x \<or> failedMatch xs s (c + 1)"
    by (simp only: Cons.IH)
  finally show ?case by simp
qed

lemma taste_unchanged:
  assumes "taste p L = (r, L')"
  shows "str L' = str L \<and> cursor L' = cursor L \<and> cursorStack L' = cursorStack L"
proof (cases p)
  case None
  with assms show ?thesis by simp
next
  case (Some q)
  with assms show ?thesis
    by (cases q) (auto simp: Let_def split: if_splits option.splits)
qed

lemma taste_Some:
  assumes "taste p L = (Some v, L')"
  shows "tasteCursor L' = cursor L + int (length v)"
proof (cases p)
  case None
  with assms show ?thesis by simp
next
  case (Some q)
  with assms show ?thesis
    by (cases q) (auto simp: Let_def split: if_splits option.splits)
qed

lemma eat_cases:
  assumes "eat p L = (r, L')"
  shows "(r = None \<and> (\<exists>L1. fst (taste p L) = None \<and> L' = L \<or> taste p L = (None, L1) \<and> L' = L1)) \<or>
         (\<exists>q v L1. p = Some q \<and> taste p L = (Some v, L1) \<and> make_token q v L1 = (r, L'))"
proof (cases p)
  case None
  with assms show ?thesis by simp
next
  case (Some q)
  show ?thesis
  proof (cases q)
    case (PStr x)
    with Some assms show ?thesis
      by (cases x) (auto simp: Let_def split: prod.splits option.splits if_splits)
  next
    case (PRegex x)
    with Some assms show ?thesis
      by (auto simp: Let_def split: prod.splits option.splits)
  qed
qed

lemma currentLine_cong:
  "str L' = str L \<Longrightarrow> cursor L' = cursor L \<Longrightarrow> currentLine L' = currentLine L"
  by (simp add: currentLine_def lineOffsets_def lines_def cong: if_cong)

lemma eat_None:
  assumes "eat p L = (None, L')"
  shows "str L' = str L \<and> cursor L' = cursor L \<and> cursorStack L' = cursorStack L"
  using eat_cases [OF assms] taste_unchanged [of p L]
  by (auto simp: make_token_def Let_def)

lemma eat_Some:
  assumes "eat p L = (Some t, L')"
  shows "str L' = str L \<and> cursorStack L' = cursorStack L \<and> tok_start t = cursor L \<and>
         tok_end t = cursor L + int (length (tok_value t)) \<and> cursor L' = tok_end t \<and>
         fst (taste p L) = Some (tok_value t) \<and> \<not> isMissing t \<and>
         tok_line t = currentLine L"
proof -
  from eat_cases [OF assms] obtain q v L1 where 1: "p = Some q" "taste p L = (Some v, L1)"
    and 2: "make_token q v L1 = (Some t, L')" by auto
  have "currentLine (L1\<lparr>cursor := tasteCursor L1 - int (length v)\<rparr>) = currentLine L"
    using taste_unchanged [OF 1(2)] taste_Some [OF 1(2)] by (intro currentLine_cong) auto
  with taste_unchanged [OF 1(2)] taste_Some [OF 1(2)] 2 1(2) show ?thesis
    by (auto simp: make_token_def Let_def)
qed

lemma eat_advances:
  assumes "eat p L = (r, L')"
  shows "str L' = str L \<and> cursorStack L' = cursorStack L \<and> cursor L \<le> cursor L'"
proof (cases r)
  case None
  with assms eat_None show ?thesis by auto
next
  case (Some t)
  with assms eat_Some [of p L t L'] show ?thesis by auto
qed

lemma whitespace_loop_advances:
  "whitespace_loop results L = (results', L') \<Longrightarrow>
     str L' = str L \<and> cursorStack L' = cursorStack L \<and> cursor L \<le> cursor L'"
proof (induction results L rule: whitespace_loop.induct)
  case (1 results L)
  show ?case
  proof (cases "taste (Some (PRegex WHITESPACE_REGEX)) L")
    case (Pair sighted L1)
    note t = taste_unchanged [OF Pair]
    show ?thesis
    proof (cases sighted)
      case None
      with Pair "1.prems" t show ?thesis by (simp add: whitespace_loop.simps [of results L])
    next
      case (Some v)
      show ?thesis
      proof (cases "eat (Some (PRegex WHITESPACE_REGEX)) L1")
        case (Pair r L2)
        note e = eat_advances [OF Pair]
        show ?thesis
        proof (cases r)
          case None
          with Pair Some \<open>taste _ L = _\<close> "1.prems" t e show ?thesis
            by (simp add: whitespace_loop.simps [of results L])
        next
          case (Some tok)
          from "1.prems" Pair Some \<open>sighted = Some v\<close> \<open>taste _ L = _\<close>
          have "whitespace_loop (results @ [Tok tok]) L2 = (results', L')"
            by (simp add: whitespace_loop.simps [of results L])
          from "1.IH" [OF \<open>taste _ L = _\<close> [symmetric] \<open>sighted = Some v\<close> Pair [symmetric] Some this]
          show ?thesis using t e by auto
        qed
      qed
    qed
  qed
qed


lemma regex_exec_sticky:
  "sticky r \<Longrightarrow>
     regex_exec r s c = (if c \<le> int (length s) then match_text r s (nat (max c 0)) else None)"
  by (auto simp: regex_exec_def Let_def)

section \<open>No white space is skipped by taste and eat\<close>

text \<open>
  C1, as stated: \<^verbatim>\<open>taste\<close> and \<^verbatim>\<open>eat\<close> advance past spaces and newlines at the
  cursor before matching, so that \<^verbatim>\<open>taste("a")\<close> on the input \<^verbatim>\<open>" a"\<close> at cursor 0
  succeeds. The closure that would skip is never called: on that input both return
  \<^verbatim>\<open>null\<close>, as the repository's own tests \<^verbatim>\<open>taste / whitespace\<close> and
  \<^verbatim>\<open>eat / whitespace\<close> assert.
\<close>

theorem C1_counterexample:
  "fst (taste (Some (PStr ''a'')) (Lexer '' a'')) = None \<and>
   fst (eat (Some (PStr ''a'')) (Lexer '' a'')) = None"
  by code_simp

text \<open>
  C1, amended: for every Lexer, \<^verbatim>\<open>taste\<close> and \<^verbatim>\<open>eat\<close> try the match at the cursor
  itself and skip nothing, neither spaces and newlines nor tabs and carriage returns. A
  non-empty literal matches exactly when its characters are the characters of the input
  from the cursor on, and the token of \<^verbatim>\<open>eat\<close> starts at the cursor; a sticky regular
  expression is tried at the cursor only, and its token starts there.
\<close>

theorem C1_match_at_cursor:
  assumes "p \<noteq> []"
  shows "(fst (taste (Some (PStr p)) L) = Some p \<longleftrightarrow>
            (\<forall>i<length p. char_at (str L) (cursor L + int i) = Some (p ! i))) \<and>
         (fst (taste (Some (PStr p)) L) = None \<longleftrightarrow>
            (\<exists>i<length p. char_at (str L) (cursor L + int i) \<noteq> Some (p ! i))) \<and>
         (fst (eat (Some (PStr p)) L) = None \<longleftrightarrow>
            (\<exists>i<length p. char_at (str L) (cursor L + int i) \<noteq> Some (p ! i))) \<and>
         (\<forall>t. fst (eat (Some (PStr p)) L) = Some t \<longrightarrow> tok_start t = cursor L \<and> tok_value t = p) \<and>
         (sticky r \<longrightarrow>
            fst (taste (Some (PRegex r)) L) =
              (if cursor L \<le> int (length (str L))
               then match_text r (str L) (nat (max (cursor L) 0)) else None)) \<and>
         (sticky r \<longrightarrow>
            (\<forall>t. fst (eat (Some (PRegex r)) L) = Some t \<longrightarrow>
               tok_start t = cursor L \<and>
               Some (tok_value t) = match_text r (str L) (nat (max (cursor L) 0))))"
proof -
  have taste_str: "fst (taste (Some (PStr p)) L) =
      (if failedMatch p (str L) (cursor L) then None else Some p)"
    using assms by (simp add: Let_def)
  have eat_str: "fst (eat (Some (PStr p)) L) = None \<longleftrightarrow> failedMatch p (str L) (cursor L)"
    using assms by (cases p) (auto simp: Let_def make_token_def)
  have eat_str_tok: "tok_start t = cursor L \<and> tok_value t = p"
    if h: "fst (eat (Some (PStr p)) L) = Some t" for t
  proof -
    obtain L' where e: "eat (Some (PStr p)) L = (Some t, L')"
      using h by (metis prod.collapse)
    from eat_Some [OF e] taste_str show ?thesis by (auto split: if_splits)
  qed
  have taste_rx: "fst (taste (Some (PRegex r)) L) =
      (if cursor L \<le> int (length (str L))
       then match_text r (str L) (nat (max (cursor L) 0)) else None)" if "sticky r"
    using that by (auto simp: Let_def regex_exec_sticky split: option.splits)
  have eat_rx: "tok_start t = cursor L \<and>
      Some (tok_value t) = match_text r (str L) (nat (max (cursor L) 0))"
    if st: "sticky r" and h: "fst (eat (Some (PRegex r)) L) = Some t" for t
  proof -
    obtain L' where e: "eat (Some (PRegex r)) L = (Some t, L')"
      using h by (metis prod.collapse)
    from eat_Some [OF e] taste_rx [OF st] show ?thesis by (auto split: if_splits)
  qed
  show ?thesis
    using taste_str eat_str eat_str_tok taste_rx eat_rx
    by (simp add: failedMatch_iff)
qed

text \<open>
  The theorem at the input \<^verbatim>\<open>"  cd"\<close>: the literal \<^verbatim>\<open>"cd"\<close> does not match at
  cursor 0 and matches at cursor 2; the white-space expression matches the two spaces.
\<close>

theorem C1_match_at_cursor_witness:
  "''cd'' \<noteq> [] \<and> sticky WHITESPACE_REGEX \<and>
   fst (taste (Some (PStr ''cd'')) (Lexer ''  cd'')) = None \<and>
   fst (eat (Some (PStr ''cd'')) (Lexer ''  cd'')) = None \<and>
   fst (taste (Some (PStr ''cd'')) ((Lexer ''  cd'')\<lparr>cursor := 2\<rparr>)) = Some ''cd'' \<and>
   fst (taste (Some (PRegex WHITESPACE_REGEX)) (Lexer ''  cd'')) = Some ''  ''"
proof -
  have ne: "''cd'' \<noteq> []" by simp
  have st: "sticky WHITESPACE_REGEX" by (simp add: WHITESPACE_REGEX_def)
  have a: "\<exists>i<length ''cd''. char_at (str (Lexer ''  cd'')) (cursor (Lexer ''  cd'') + int i) \<noteq> Some (''cd'' ! i)"
    by (rule exI [of _ 0]) (simp add: Lexer_def char_at_def)
  have b: "\<forall>i<length ''cd''. char_at (str ((Lexer ''  cd'')\<lparr>cursor := 2\<rparr>))
      (cursor ((Lexer ''  cd'')\<lparr>cursor := 2\<rparr>) + int i) = Some (''cd'' ! i)"
    by (simp add: Lexer_def char_at_def All_less_Suc2 del: All_less_Suc)
  have c: "match_text WHITESPACE_REGEX (str (Lexer ''  cd'')) (nat (max (cursor (Lexer ''  cd'')) 0)) = Some ''  ''"
    by (simp add: match_text_def WHITESPACE_REGEX_def whitespace_matcher_def Lexer_def char_at_def)
  note T1 = C1_match_at_cursor [OF ne, of "Lexer ''  cd''" WHITESPACE_REGEX]
  note T2 = C1_match_at_cursor [OF ne, of "(Lexer ''  cd'')\<lparr>cursor := 2\<rparr>" WHITESPACE_REGEX]
  from T1 a have 1: "fst (taste (Some (PStr ''cd'')) (Lexer ''  cd'')) = None"
    and 2: "fst (eat (Some (PStr ''cd'')) (Lexer ''  cd'')) = None" by blast+
  from T2 b have 3: "fst (taste (Some (PStr ''cd'')) ((Lexer ''  cd'')\<lparr>cursor := 2\<rparr>)) = Some ''cd''"
    by blast
  from T1 st c have 4: "fst (taste (Some (PRegex WHITESPACE_REGEX)) (Lexer ''  cd'')) = Some ''  ''"
    by (simp add: Lexer_def)
  from ne st 1 2 3 4 show ?thesis by blast
qed

section \<open>White-space tokens\<close>

lemma all_dropWhile_iff: "(\<forall>x\<in>set (dropWhile P xs). P x) \<longleftrightarrow> (\<forall>x\<in>set xs. P x)"
  by (induction xs) auto

lemma trim_Nil_iff: "trim s = [] \<longleftrightarrow> (\<forall>c\<in>set s. isWhiteSpaceChar c)"
  by (simp add: trim_def trimEnd_def trimStart_def dropWhile_eq_Nil_conv all_dropWhile_iff)

lemma eat_empty_RegExp:
  "\<exists>t L'. eat (Some (PRegex empty_RegExp)) L = (Some t, L') \<and> tok_value t = []"
proof -
  have "[0 ..< Suc (length (str L))] = 0 # [Suc 0 ..< Suc (length (str L))]"
    by (rule upt_conv_Cons) simp
  then have "regex_exec empty_RegExp (str L) (cursor L) = Some []"
    by (simp add: regex_exec_def empty_RegExp_def match_text_def Let_def del: upt_Suc)
  then show ?thesis
    by (simp add: Let_def make_token_def)
qed

lemma missing_token_Some:
  "\<exists>t L'. missing_token g L = (Some t, L') \<and> tok_value t = [] \<and> isMissing t \<and>
     tok_shapeExp t = Some g \<and> tok_start t = cursor L \<and> tok_end t = cursor L \<and>
     tok_line t = currentLine L \<and>
     str L' = str L \<and> cursor L' = cursor L \<and> cursorStack L' = cursorStack L"
proof -
  from eat_empty_RegExp [of L] obtain t L' where
    e: "eat (Some (PRegex empty_RegExp)) L = (Some t, L')" and v: "tok_value t = []" by blast
  from eat_Some [OF e] v e show ?thesis by (simp add: missing_token_def)
qed


section \<open>Facts about the parse methods\<close>

lemma ShapeExp_loop_None:
  "ShapeExp_loop G P n this startCursor expIndex results L = Returned None L' \<Longrightarrow>
     cursor L' = startCursor"
proof (induction n arbitrary: this expIndex results L)
  case 0
  then show ?case by simp
next
  case (Suc n)
  from Suc.prems show ?case
    by (auto split: if_splits prod.splits run.splits option.splits dest: Suc.IH)
qed

lemma ShapeExp_parse_None:
  "ShapeExp_parse G P n this L = Returned None L' \<Longrightarrow> cursor L' = cursor L"
  unfolding ShapeExp_parse_def by (rule ShapeExp_loop_None)

lemma exp_e_after_parse: "exp_e (after_parse g) = exp_e g"
proof (cases g)
  case (ShapeExp v rd mn mx e)
  then show ?thesis by (cases v) (simp_all add: after_parse_def)
qed

lemma isWhiteSpace_iff: "isWhiteSpace t \<longleftrightarrow> (\<forall>c\<in>set (tok_value t). isWhiteSpaceChar c)"
  by (simp add: isWhiteSpace_def trim_Nil_iff)

lemma concat_map_if:
  "concat (map (\<lambda>x. if Q x then [f x] else []) xs) = map f (filter Q xs)"
  by (induction xs) auto

lemma validate_token_eq:
  "validate_token t =
     (if isMissing t \<and> message_of t \<noteq> None
      then [\<lparr>err_line = tok_line t, err_col = tok_col t, err_message = the (message_of t)\<rparr>]
      else [])"
  by (auto split: option.splits)

lemma validate_eq:
  "validate es =
     map (\<lambda>t. \<lparr>err_line = tok_line t, err_col = tok_col t, err_message = the (message_of t)\<rparr>)
       (filter (\<lambda>t. isMissing t \<and> message_of t \<noteq> None) (tokens es))"
proof -
  have h: "validate_token =
      (\<lambda>t. if isMissing t \<and> message_of t \<noteq> None
           then [\<lparr>err_line = tok_line t, err_col = tok_col t, err_message = the (message_of t)\<rparr>]
           else [])"
    by (rule ext) (rule validate_token_eq)
  show ?thesis
    unfolding validate_def h by (rule concat_map_if)
qed

lemma run_case_SomeE:
  assumes "case r of Returned (Some x) L \<Rightarrow> Q x L | _ \<Rightarrow> False"
  obtains x L where "r = Returned (Some x) L" and "Q x L"
  using assms by (auto split: run.splits option.splits)

lemma run_case_NoneE:
  assumes "case r of Returned None L \<Rightarrow> Q L | _ \<Rightarrow> False"
  obtains L where "r = Returned None L" and "Q L"
  using assms by (auto split: run.splits option.splits)

lemma AST_continues_loop:
  assumes "(AST_continues G P n this)\<^sup>*\<^sup>* s s'" and "1 \<le> fst (snd s)"
  shows "AST_loop G P n this startCursor firstExp firstExpCursor (fst s) (fst (snd s)) (snd (snd s)) =
           AST_loop G P n this startCursor firstExp firstExpCursor (fst s') (fst (snd s'))
             (snd (snd s')) \<and>
         1 \<le> fst (snd s')"
  using assms
proof (induction rule: rtranclp_induct)
  case base
  then show ?case by simp
next
  case (step y z)
  from step.IH [OF step.prems] have
    eq: "AST_loop G P n this startCursor firstExp firstExpCursor (fst s) (fst (snd s)) (snd (snd s)) =
         AST_loop G P n this startCursor firstExp firstExpCursor (fst y) (fst (snd y)) (snd (snd y))"
    and i: "1 \<le> fst (snd y)" by auto
  from step.hyps(2) show ?case
  proof (cases rule: AST_continues.cases)
    case (matched si L0 rs L1x ex)
    then have "AST_loop G P n this startCursor firstExp firstExpCursor (fst y) (fst (snd y)) (snd (snd y)) =
        AST_loop G P n this startCursor firstExp firstExpCursor (fst z) (fst (snd z)) (snd (snd z))"
      using i by (subst AST_loop.simps) simp
    with eq matched show ?thesis by simp
  next
    case (missing si L0 L1x ex token L2x)
    then have "AST_loop G P n this startCursor firstExp firstExpCursor (fst y) (fst (snd y)) (snd (snd y)) =
        AST_loop G P n this startCursor firstExp firstExpCursor (fst z) (fst (snd z)) (snd (snd z))"
      using i by (subst AST_loop.simps) simp
    with eq missing show ?thesis by simp
  qed
qed

lemma AST_loop_end:
  "AST_loop G P n this startCursor firstExp firstExpCursor exps (length (SHAPE this)) L =
     Returned (Some (Node (className this) exps)) L"
  by (subst AST_loop.simps) simp

lemma AST_continues_step_loop:
  assumes "AST_continues G P n this s s'"
  shows "\<exists>fe fc.
           AST_loop G P n this startCursor firstExp firstExpCursor (fst s) (fst (snd s)) (snd (snd s)) =
           AST_loop G P n this startCursor fe fc (fst s') (fst (snd s')) (snd (snd s'))"
  using assms
proof (cases rule: AST_continues.cases)
  case (matched si L0 rs L1x ex)
  let ?first = "\<not> is_TEXT_EXP (after_parse (SHAPE this ! si)) \<and> si = 0"
  from matched have
    "AST_loop G P n this startCursor firstExp firstExpCursor ex si L0 =
     AST_loop G P n this startCursor (if ?first then array_at rs 0 else firstExp)
       (if ?first then cursor L1x else firstExpCursor) (ex @ rs) (si + 1) L1x"
    by (subst AST_loop.simps) (simp add: Let_def)
  with matched show ?thesis by auto
next
  case (missing si L0 L1x ex token L2x)
  then have
    "AST_loop G P n this startCursor firstExp firstExpCursor ex si L0 =
     AST_loop G P n this startCursor firstExp firstExpCursor (ex @ [Tok token]) (si + 1) L2x"
    by (subst AST_loop.simps) simp
  with missing show ?thesis by auto
qed

lemma AST_parse_reaches:
  assumes "(AST_continues G P n this)\<^sup>*\<^sup>* ([], 0, L0) s"
  shows "\<exists>fe fc. AST_parse G P n this L0 =
           AST_loop G P n this (cursor L0) fe fc (fst s) (fst (snd s)) (snd (snd s))"
  using assms
proof (induction rule: rtranclp_induct)
  case base
  show ?case unfolding AST_parse_def by auto
next
  case (step y z)
  from step.IH obtain fe fc where
    a: "AST_parse G P n this L0 =
          AST_loop G P n this (cursor L0) fe fc (fst y) (fst (snd y)) (snd (snd y))" by blast
  from AST_continues_step_loop [OF step.hyps(2), of "cursor L0" fe fc] obtain fe' fc' where
    "AST_loop G P n this (cursor L0) fe fc (fst y) (fst (snd y)) (snd (snd y)) =
     AST_loop G P n this (cursor L0) fe' fc' (fst z) (fst (snd z)) (snd (snd z))" by blast
  with a show ?case by auto
qed

lemma AST_continues_appends:
  assumes "(AST_continues G P n this)\<^sup>*\<^sup>* s s'"
  shows "\<exists>rest. fst s' = fst s @ rest"
  using assms
proof (induction rule: rtranclp_induct)
  case base
  show ?case by simp
next
  case (step y z)
  then obtain rest where "fst y = fst s @ rest" by blast
  moreover from step.hyps(2) obtain more where "fst z = fst y @ more"
    by (cases rule: AST_continues.cases) auto
  ultimately show ?case by simp
qed

lemma validate_append: "validate (a @ b) = validate a @ validate b"
  by (simp add: validate_def tokens_def)

lemma AST_parse_fallback:
  assumes "0 < length (SHAPE this)"
    and "\<not> is_TEXT_EXP (after_parse (SHAPE this ! 0))"
    and "ShapeExp_parse G P n (SHAPE this ! 0) L = Returned (Some results) L1"
    and "(AST_continues G P n this)\<^sup>*\<^sup>* (results, 1, L1) (exps, shapeIndex, L2)"
    and "shapeIndex < length (SHAPE this)"
    and "ShapeExp_parse G P n (SHAPE this ! shapeIndex) L2 = Returned None L3"
    and "\<not> (allowIncompleteParse this \<and> incompleteParseThreshold this \<le> int (contentCount exps))"
    and "fallbackToFirstExp this"
  shows "AST_parse G P n this L = Returned (array_at results 0) (L3\<lparr>cursor := cursor L1\<rparr>)"
proof -
  have "AST_parse G P n this L =
      AST_loop G P n this (cursor L) (array_at results 0) (cursor L1) results 1 L1"
    unfolding AST_parse_def using assms(1,2,3) by (subst AST_loop.simps) simp
  also have "\<dots> = AST_loop G P n this (cursor L) (array_at results 0) (cursor L1) exps shapeIndex L2"
    using AST_continues_loop [OF assms(4)] by simp
  also have "\<dots> = Returned (array_at results 0) (L3\<lparr>cursor := cursor L1\<rparr>)"
  proof -
    from assms(7) have
      "(allowIncompleteParse this \<and> incompleteParseThreshold this \<le> int (contentCount exps)) = False"
      by simp
    with assms(5,6,8) show ?thesis by (subst AST_loop.simps) (simp del: de_Morgan_conj)
  qed
  finally show ?thesis .
qed

lemma advances_refl [simp]: "advances L L"
  by (simp add: advances_def)

lemma advances_trans: "advances L L1 \<Longrightarrow> advances L1 L2 \<Longrightarrow> advances L L2"
  by (auto simp: advances_def)

lemma advances_tasteCursor [simp]: "advances L (L\<lparr>tasteCursor := c\<rparr>)"
  by (simp add: advances_def)

lemma taste_advances: "taste p L = (r, L') \<Longrightarrow> advances L L'"
  using taste_unchanged [of p L r L'] by (simp add: advances_def)

lemma eat_advances': "eat p L = (r, L') \<Longrightarrow> advances L L'"
  using eat_advances [of p L r L'] by (simp add: advances_def)

lemma whitespace_loop_advances': "whitespace_loop rs L = (rs', L') \<Longrightarrow> advances L L'"
  using whitespace_loop_advances [of rs L rs' L'] by (simp add: advances_def)

lemma lead_fails_resolve_lazy:
  assumes "\<forall>p. exp_value g \<noteq> LAZY_EXP (TEXT_EXP p)"
  shows "lead_fails (resolve_lazy g # gs) L = lead_fails (g # gs) L"
proof -
  obtain v rd mn mx e where g: "g = ShapeExp v rd mn mx e" by (cases g)
  show ?thesis
  proof (cases v)
    case (LAZY_EXP w)
    with assms g show ?thesis by (cases w) simp_all
  qed (simp_all add: g)
qed

lemma lead_fails_advances: "lead_fails gs L = (b, L') \<Longrightarrow> advances L L'"
  by (induction gs L rule: lead_fails.induct)
    (auto split: prod.splits option.splits dest: taste_advances)

lemma OPTION_loop_advances:
  assumes "sound_calls P"
  shows "OPTION_loop P gs L = Returned r L' \<Longrightarrow> advances L L'"
proof (induction gs arbitrary: L)
  case Nil
  then show ?case by simp
next
  case (Cons g gs)
  show ?case
  proof (cases "call_ShapeExp_parse P g L")
    case (Returned r1 L1)
    with assms have a: "advances L L1" by (auto simp: sound_calls_def)
    show ?thesis
    proof (cases r1)
      case None
      with Returned Cons.prems have "OPTION_loop P gs L1 = Returned r L'" by simp
      from Cons.IH [OF this] a show ?thesis by (rule advances_trans [rotated])
    next
      case (Some x)
      with Returned Cons.prems a show ?thesis by simp
    qed
  qed (use Cons.prems in simp_all)
qed

lemma ShapeExp_result_advances:
  assumes "sound_calls P" and "ShapeExp_result G P this L = Returned r L'"
  shows "advances L L'"
proof (cases "exp_value this")
  case (TEXT_EXP p)
  with assms(2) show ?thesis
    by (auto simp: ShapeExp_result_def split: prod.splits option.splits dest: eat_advances')
next
  case (AST_EXP c)
  obtain b L1 where lf: "lead_fails (SHAPE (G c)) L = (b, L1)" by (cases "lead_fails (SHAPE (G c)) L")
  note a = lead_fails_advances [OF lf]
  show ?thesis
  proof (cases b)
    case True
    with assms(2) AST_EXP lf a show ?thesis by (simp add: ShapeExp_result_def)
  next
    case False
    with assms(2) AST_EXP lf obtain r2 where "call_class_parse P (G c) L1 = Returned r2 L'"
      by (auto simp: ShapeExp_result_def split: run.splits option.splits)
    with assms(1) have "advances L1 L'" by (auto simp: sound_calls_def)
    with a show ?thesis by (rule advances_trans)
  qed
next
  case (OPTION_EXP gs)
  with assms show ?thesis by (simp add: ShapeExp_result_def OPTION_loop_advances)
next
  case (SUB_SHAPE_EXP gs)
  with assms(2) obtain r2 where "call_AST_parse P (SUB_SHAPE_AST gs) L = Returned r2 L'"
    by (auto simp: ShapeExp_result_def split: run.splits option.splits exp.splits)
  with assms(1) show ?thesis by (auto simp: sound_calls_def)
next
  case (LAZY_EXP v)
  with assms(2) show ?thesis by (simp add: ShapeExp_result_def)
qed

lemma ShapeExp_loop_SucE:
  assumes "ShapeExp_loop G P (Suc n) this startCursor expIndex results L = Returned r L'"
  obtains
    (finished) "\<not> below expIndex (exp_max this)" "r = Some results" "L' = L"
  | (sighted) v where "below expIndex (exp_max this)" "expIndex \<noteq> 0"
      "taste (rightDelimeter this) L = (Some v, L')" "r = Some results"
  | (satisfied) sighted L1 results1 L2 where "below expIndex (exp_max this)"
      "taste (rightDelimeter this) L = (sighted, L1)"
      "whitespace_loop results L1 = (results1, L2)"
      "ShapeExp_result G P (resolve_lazy this) L2 = Returned None L'"
      "exp_min this \<le> expIndex" "r = Some results1"
  | (failed) sighted L1 results1 L2 L3 where "below expIndex (exp_max this)"
      "taste (rightDelimeter this) L = (sighted, L1)"
      "whitespace_loop results L1 = (results1, L2)"
      "ShapeExp_result G P (resolve_lazy this) L2 = Returned None L3"
      "\<not> exp_min this \<le> expIndex" "r = None" "L' = L3\<lparr>cursor := startCursor\<rparr>"
  | (continued) sighted L1 results1 L2 result L3 where "below expIndex (exp_max this)"
      "taste (rightDelimeter this) L = (sighted, L1)"
      "whitespace_loop results L1 = (results1, L2)"
      "ShapeExp_result G P (resolve_lazy this) L2 = Returned (Some result) L3"
      "ShapeExp_loop G P n (resolve_lazy this) startCursor (expIndex + 1) (results1 @ result) L3
         = Returned r L'"
proof (cases "below expIndex (exp_max this)")
  case False
  with assms show ?thesis by (intro finished) simp_all
next
  case True
  obtain sighted L1 where t: "taste (rightDelimeter this) L = (sighted, L1)"
    by (cases "taste (rightDelimeter this) L")
  obtain results1 L2 where w: "whitespace_loop results L1 = (results1, L2)"
    by (cases "whitespace_loop results L1")
  show ?thesis
  proof (cases "(case sighted of None \<Rightarrow> False | Some v \<Rightarrow> True) \<and> expIndex \<noteq> 0")
    case stop: True
    then obtain v where "sighted = Some v" by (cases sighted) auto
    with assms True t stop show ?thesis by (intro sighted [of v]) simp_all
  next
    case go: False
    then have "((case sighted of None \<Rightarrow> False | Some v \<Rightarrow> True) \<and> expIndex \<noteq> 0) = False"
      by simp
    with assms True t w
    have body: "(case ShapeExp_result G P (resolve_lazy this) L2 of
           Diverged \<Rightarrow> Diverged
         | Threw \<Rightarrow> Threw
         | Returned (Some result) L3 \<Rightarrow>
             ShapeExp_loop G P n (resolve_lazy this) startCursor (expIndex + 1)
               (results1 @ result) L3
         | Returned None L3 \<Rightarrow>
             if expIndex \<ge> exp_min this then Returned (Some results1) L3
             else Returned None (L3\<lparr>cursor := startCursor\<rparr>)) = Returned r L'"
      by (simp del: One_nat_def de_Morgan_conj)
    show ?thesis
    proof (cases "ShapeExp_result G P (resolve_lazy this) L2")
      case (Returned r3 L3)
      show ?thesis
      proof (cases r3)
        case None
        show ?thesis
        proof (cases "exp_min this \<le> expIndex")
          case le: True
          with body Returned None True t w show ?thesis
            by (intro satisfied [of sighted L1 results1 L2]) simp_all
        next
          case nle: False
          with body Returned None True t w show ?thesis
            by (intro failed [of sighted L1 results1 L2 L3]) simp_all
        qed
      next
        case (Some result)
        with body Returned True t w show ?thesis
          by (intro continued [of sighted L1 results1 L2 result L3]) simp_all
      qed
    qed (use body in simp_all)
  qed
qed

lemma ShapeExp_loop_advances:
  assumes "sound_calls P"
  shows "ShapeExp_loop G P n this startCursor expIndex results L = Returned r L' \<Longrightarrow>
         startCursor \<le> cursor L \<Longrightarrow>
         str L' = str L \<and> cursorStack L' = cursorStack L \<and> startCursor \<le> cursor L'"
proof (induction n arbitrary: this expIndex results L)
  case 0
  then show ?case by simp
next
  case (Suc n)
  from Suc.prems(1) show ?case
  proof (cases rule: ShapeExp_loop_SucE)
    case finished
    with Suc.prems show ?thesis by simp
  next
    case (sighted v)
    with Suc.prems taste_advances [OF sighted(3)] show ?thesis by (simp add: advances_def)
  next
    case (satisfied sighted L1 results1 L2)
    from taste_advances [OF satisfied(2)] whitespace_loop_advances' [OF satisfied(3)]
      ShapeExp_result_advances [OF assms satisfied(4)] Suc.prems(2)
    show ?thesis by (simp add: advances_def)
  next
    case (failed sighted L1 results1 L2 L3)
    from taste_advances [OF failed(2)] whitespace_loop_advances' [OF failed(3)]
      ShapeExp_result_advances [OF assms failed(4)] failed(7)
    show ?thesis by (simp add: advances_def)
  next
    case (continued sighted L1 results1 L2 result L3)
    from taste_advances [OF continued(2)] whitespace_loop_advances' [OF continued(3)]
      ShapeExp_result_advances [OF assms continued(4)] Suc.prems(2)
    have L3: "str L3 = str L" "cursorStack L3 = cursorStack L" "startCursor \<le> cursor L3"
      by (simp_all add: advances_def)
    from Suc.IH [OF continued(5) L3(3)] L3 show ?thesis by simp
  qed
qed

lemma ShapeExp_parse_advances:
  "sound_calls P \<Longrightarrow> ShapeExp_parse G P n this L = Returned r L' \<Longrightarrow> advances L L'"
  unfolding ShapeExp_parse_def advances_def
  by (drule (1) ShapeExp_loop_advances) simp_all


lemma AST_loopE:
  assumes "AST_loop G P n this startCursor firstExp firstExpCursor exps shapeIndex L = Returned r L'"
  obtains
    (completed) "\<not> shapeIndex < length (SHAPE this)" "r = Some (Node (className this) exps)"
      "L' = L"
  | (matched) results L1 where "shapeIndex < length (SHAPE this)"
      "ShapeExp_parse G P n (SHAPE this ! shapeIndex) L = Returned (Some results) L1"
      "AST_loop G P n this startCursor
         (if \<not> is_TEXT_EXP (after_parse (SHAPE this ! shapeIndex)) \<and> shapeIndex = 0
          then array_at results 0 else firstExp)
         (if \<not> is_TEXT_EXP (after_parse (SHAPE this ! shapeIndex)) \<and> shapeIndex = 0
          then cursor L1 else firstExpCursor)
         (exps @ results) (shapeIndex + 1) L1 = Returned r L'"
  | (missing) L1 token L2 where "shapeIndex < length (SHAPE this)"
      "ShapeExp_parse G P n (SHAPE this ! shapeIndex) L = Returned None L1"
      "allowIncompleteParse this" "incompleteParseThreshold this \<le> int (contentCount exps)"
      "missing_token (after_parse (SHAPE this ! shapeIndex)) L1 = (Some token, L2)"
      "AST_loop G P n this startCursor firstExp firstExpCursor (exps @ [Tok token])
         (shapeIndex + 1) L2 = Returned r L'"
  | (fallback) L1 where "shapeIndex < length (SHAPE this)"
      "ShapeExp_parse G P n (SHAPE this ! shapeIndex) L = Returned None L1"
      "\<not> (allowIncompleteParse this \<and> incompleteParseThreshold this \<le> int (contentCount exps))"
      "fallbackToFirstExp this" "r = firstExp" "L' = L1\<lparr>cursor := firstExpCursor\<rparr>"
  | (clean) L1 where "shapeIndex < length (SHAPE this)"
      "ShapeExp_parse G P n (SHAPE this ! shapeIndex) L = Returned None L1"
      "\<not> (allowIncompleteParse this \<and> incompleteParseThreshold this \<le> int (contentCount exps))"
      "\<not> fallbackToFirstExp this" "r = None" "L' = L1\<lparr>cursor := startCursor\<rparr>"
proof (cases "shapeIndex < length (SHAPE this)")
  case False
  with assms show ?thesis by (intro completed) (simp_all add: AST_loop.simps)
next
  case True
  let ?g = "SHAPE this ! shapeIndex"
  from assms True have body:
    "(case ShapeExp_parse G P n ?g L of
        Diverged \<Rightarrow> Diverged
      | Threw \<Rightarrow> Threw
      | Returned (Some results) L1 \<Rightarrow>
          (let isFirstAST = (\<not> is_TEXT_EXP (after_parse ?g) \<and> shapeIndex = 0)
           in AST_loop G P n this startCursor
                (if isFirstAST then array_at results 0 else firstExp)
                (if isFirstAST then cursor L1 else firstExpCursor)
                (exps @ results) (shapeIndex + 1) L1)
      | Returned None L1 \<Rightarrow>
          if allowIncompleteParse this \<and> int (contentCount exps) \<ge> incompleteParseThreshold this
          then
            (case missing_token (after_parse ?g) L1 of
               (None, L2) \<Rightarrow> Threw
             | (Some token, L2) \<Rightarrow>
                 AST_loop G P n this startCursor firstExp firstExpCursor (exps @ [Tok token])
                   (shapeIndex + 1) L2)
          else if fallbackToFirstExp this then Returned firstExp (L1\<lparr>cursor := firstExpCursor\<rparr>)
          else Returned None (L1\<lparr>cursor := startCursor\<rparr>)) = Returned r L'"
    by (subst (asm) AST_loop.simps) (simp del: One_nat_def)
  show ?thesis
  proof (cases "ShapeExp_parse G P n ?g L")
    case (Returned r1 L1)
    show ?thesis
    proof (cases r1)
      case (Some results)
      with body Returned True show ?thesis
        by (intro matched [of results L1]) (simp_all add: Let_def del: One_nat_def)
    next
      case None
      show ?thesis
      proof (cases "allowIncompleteParse this \<and> incompleteParseThreshold this \<le> int (contentCount exps)")
        case inc: True
        obtain mt L2 where m: "missing_token (after_parse ?g) L1 = (mt, L2)"
          by (cases "missing_token (after_parse ?g) L1")
        with body Returned None inc obtain token where "mt = Some token"
          by (cases mt) (simp_all del: One_nat_def)
        with body Returned None inc m True show ?thesis
          by (intro missing [of L1 token L2]) (simp_all del: One_nat_def)
      next
        case noinc: False
        then have f: "(allowIncompleteParse this \<and>
            incompleteParseThreshold this \<le> int (contentCount exps)) = False" by simp
        show ?thesis
        proof (cases "fallbackToFirstExp this")
          case fb: True
          with body Returned None f True noinc show ?thesis
            by (intro fallback [of L1]) (simp_all del: One_nat_def de_Morgan_conj)
        next
          case nfb: False
          with body Returned None f True noinc show ?thesis
            by (intro clean [of L1]) (simp_all del: One_nat_def de_Morgan_conj)
        qed
      qed
    qed
  qed (use body in simp_all)
qed

lemma AST_loop_advances:
  assumes "sound_calls P"
  shows "AST_loop G P n this startCursor firstExp firstExpCursor exps shapeIndex L = Returned r L' \<Longrightarrow>
         startCursor \<le> firstExpCursor \<Longrightarrow> startCursor \<le> cursor L \<Longrightarrow>
         str L' = str L \<and> cursorStack L' = cursorStack L \<and> startCursor \<le> cursor L'"
proof (induction "length (SHAPE this) - shapeIndex" arbitrary: firstExp firstExpCursor exps shapeIndex L)
  case 0
  from "0.prems"(1) show ?case
    by (cases rule: AST_loopE) (use 0 in simp_all)
next
  case (Suc k)
  from Suc.prems(1) show ?case
  proof (cases rule: AST_loopE)
    case completed
    with Suc.prems show ?thesis by simp
  next
    case (matched results L1)
    note a = ShapeExp_parse_advances [OF assms matched(2)]
    from Suc.hyps(2) matched(1) have k: "k = length (SHAPE this) - (shapeIndex + 1)" by simp
    from a Suc.prems have "startCursor \<le> cursor L1" by (simp add: advances_def)
    with Suc.hyps(1) [OF k matched(3)] Suc.prems a show ?thesis
      by (auto simp: advances_def split: if_splits)
  next
    case (missing L1 token L2)
    note a = ShapeExp_parse_advances [OF assms missing(2)]
    from missing_token_Some [of "after_parse (SHAPE this ! shapeIndex)" L1] missing(5)
    have b: "str L2 = str L1" "cursor L2 = cursor L1" "cursorStack L2 = cursorStack L1" by auto
    from Suc.hyps(2) missing(1) have k: "k = length (SHAPE this) - (shapeIndex + 1)" by simp
    from a b Suc.prems have "startCursor \<le> cursor L2" by (simp add: advances_def)
    with Suc.hyps(1) [OF k missing(6) Suc.prems(2)] a b show ?thesis
      by (simp add: advances_def)
  next
    case (fallback L1)
    with ShapeExp_parse_advances [OF assms fallback(2)] Suc.prems show ?thesis
      by (simp add: advances_def)
  next
    case (clean L1)
    with ShapeExp_parse_advances [OF assms clean(2)] Suc.prems show ?thesis
      by (simp add: advances_def)
  qed
qed

lemma AST_parse_advances:
  "sound_calls P \<Longrightarrow> AST_parse G P n this L = Returned r L' \<Longrightarrow> advances L L'"
  unfolding AST_parse_def advances_def
  by (drule (1) AST_loop_advances) simp_all

lemma AST_loop_None:
  "AST_loop G P n this startCursor firstExp firstExpCursor exps shapeIndex L = Returned None L' \<Longrightarrow>
   1 \<le> shapeIndex \<Longrightarrow>
   cursor L' = startCursor \<or> (firstExp = None \<and> cursor L' = firstExpCursor)"
proof (induction "length (SHAPE this) - shapeIndex" arbitrary: exps shapeIndex L)
  case 0
  from "0.prems"(1) show ?case
    by (cases rule: AST_loopE) (use 0 in simp_all)
next
  case (Suc k)
  from Suc.prems(1) show ?case
  proof (cases rule: AST_loopE)
    case completed
    then show ?thesis by simp
  next
    case (matched results L1)
    from Suc.hyps(2) matched(1) have k: "k = length (SHAPE this) - (shapeIndex + 1)" by simp
    from matched(3) Suc.prems(2)
    have "AST_loop G P n this startCursor firstExp firstExpCursor (exps @ results)
        (shapeIndex + 1) L1 = Returned None L'" by simp
    from Suc.hyps(1) [OF k this] show ?thesis by simp
  next
    case (missing L1 token L2)
    from Suc.hyps(2) missing(1) have k: "k = length (SHAPE this) - (shapeIndex + 1)" by simp
    from Suc.hyps(1) [OF k missing(6)] show ?thesis by simp
  next
    case (fallback L1)
    then show ?thesis by simp
  next
    case (clean L1)
    then show ?thesis by simp
  qed
qed

lemma AST_parse_None:
  assumes "AST_parse G P n this L = Returned None L'"
  shows "cursor L' = cursor L \<or>
         (\<exists>L1. 0 < length (SHAPE this) \<and> \<not> is_TEXT_EXP (after_parse (SHAPE this ! 0)) \<and>
               ShapeExp_parse G P n (SHAPE this ! 0) L = Returned (Some []) L1 \<and>
               cursor L' = cursor L1)"
  using assms [unfolded AST_parse_def]
proof (cases rule: AST_loopE)
  case completed
  then show ?thesis by simp
next
  case (matched results L1)
  show ?thesis
  proof (cases "\<not> is_TEXT_EXP (after_parse (SHAPE this ! 0))")
    case True
    with matched(3) have "AST_loop G P n this (cursor L) (array_at results 0) (cursor L1)
        ([] @ results) (0 + 1) L1 = Returned None L'" by simp
    from AST_loop_None [OF this] have "cursor L' = cursor L \<or> (array_at results 0 = None \<and> cursor L' = cursor L1)"
      by simp
    moreover have "results = []" if "array_at results 0 = None"
      using that by (cases results) (simp_all add: array_at_def)
    ultimately show ?thesis using matched(1,2) True by auto
  next
    case False
    with matched(3) have "AST_loop G P n this (cursor L) None (cursor L)
        ([] @ results) (0 + 1) L1 = Returned None L'" by simp
    from AST_loop_None [OF this] show ?thesis by simp
  qed
next
  case (missing L1 token L2)
  from AST_loop_None [OF missing(6)] show ?thesis by simp
next
  case (fallback L1)
  then show ?thesis by simp
next
  case (clean L1)
  then show ?thesis by simp
qed


lemma LEFT_RECURSIVE_loop_SucE:
  assumes "LEFT_RECURSIVE_loop G P (Suc n) this leftCursor left L = Returned r L'"
  obtains
    (unsighted) shape0 tail where "SHAPE this = shape0 # tail"
      "taste (rightDelimeter shape0) L = (None, L')" "r = left"
  | (restored) shape0 tail v L1 L2 where "SHAPE this = shape0 # tail"
      "taste (rightDelimeter shape0) L = (Some v, L1)"
      "AST_parse G P n (RIGHT this) L1 = Returned None L2" "r = left"
      "L' = L2\<lparr>cursor := leftCursor\<rparr>"
  | (folded) shape0 tail v L1 nm exps L2 l where "SHAPE this = shape0 # tail"
      "taste (rightDelimeter shape0) L = (Some v, L1)"
      "AST_parse G P n (RIGHT this) L1 = Returned (Some (Node nm exps)) L2" "left = Some l"
      "LEFT_RECURSIVE_loop G P n this leftCursor (Some (Node (className this) (l # exps))) L2
         = Returned r L'"
proof (cases "SHAPE this")
  case Nil
  with assms show ?thesis by simp
next
  case (Cons shape0 tail)
  obtain sighted L1 where t: "taste (rightDelimeter shape0) L = (sighted, L1)"
    by (cases "taste (rightDelimeter shape0) L")
  show ?thesis
  proof (cases sighted)
    case None
    with assms Cons t show ?thesis by (intro unsighted [of shape0 tail]) simp_all
  next
    case (Some v)
    show ?thesis
    proof (cases "AST_parse G P n (RIGHT this) L1")
      case (Returned r1 L2)
      show ?thesis
      proof (cases r1)
        case None
        with assms Cons t Some Returned show ?thesis
          by (intro restored [of shape0 tail v L1 L2]) simp_all
      next
        case right: (Some e)
        show ?thesis
        proof (cases e)
          case (Tok x)
          with assms Cons t Some Returned right show ?thesis by simp
        next
          case (Node nm exps)
          show ?thesis
          proof (cases left)
            case None
            with assms Cons t Some Returned right Node show ?thesis by simp
          next
            case l: (Some l)
            with assms Cons t Some Returned right Node show ?thesis
              by (intro folded [of shape0 tail v L1 nm exps L2 l]) simp_all
          qed
        qed
      qed
    qed (use assms Cons t Some in simp_all)
  qed
qed

lemma LEFT_RECURSIVE_loop_advances:
  assumes "sound_calls P"
  shows "LEFT_RECURSIVE_loop G P n this leftCursor left L = Returned r L' \<Longrightarrow>
         c \<le> leftCursor \<Longrightarrow> c \<le> cursor L \<Longrightarrow>
         str L' = str L \<and> cursorStack L' = cursorStack L \<and> c \<le> cursor L'"
proof (induction n arbitrary: left L)
  case 0
  then show ?case by simp
next
  case (Suc n)
  from Suc.prems(1) show ?case
  proof (cases rule: LEFT_RECURSIVE_loop_SucE)
    case (unsighted shape0 tail)
    with taste_advances [OF unsighted(2)] Suc.prems show ?thesis by (simp add: advances_def)
  next
    case (restored shape0 tail v L1 L2)
    with taste_advances [OF restored(2)] AST_parse_advances [OF assms restored(3)] Suc.prems
    show ?thesis by (simp add: advances_def)
  next
    case (folded shape0 tail v L1 nm exps L2 l)
    from taste_advances [OF folded(2)] AST_parse_advances [OF assms folded(3)] Suc.prems
    have L2: "str L2 = str L" "cursorStack L2 = cursorStack L" "c \<le> cursor L2"
      by (simp_all add: advances_def)
    from Suc.IH [OF folded(5) Suc.prems(2) L2(3)] L2 show ?thesis by simp
  qed
qed

lemma LEFT_RECURSIVE_loop_None:
  "LEFT_RECURSIVE_loop G P n this leftCursor left L = Returned None L' \<Longrightarrow>
     left = None \<and> (cursor L' = cursor L \<or> cursor L' = leftCursor)"
proof (induction n arbitrary: left L)
  case 0
  then show ?case by simp
next
  case (Suc n)
  from Suc.prems(1) show ?case
  proof (cases rule: LEFT_RECURSIVE_loop_SucE)
    case (unsighted shape0 tail)
    with taste_unchanged [OF unsighted(2)] show ?thesis by simp
  next
    case (restored shape0 tail v L1 L2)
    then show ?thesis by simp
  next
    case (folded shape0 tail v L1 nm exps L2 l)
    from Suc.IH [OF folded(5)] show ?thesis by simp
  qed
qed

lemma LEFT_RECURSIVE_parse_advances:
  assumes "sound_calls P" and "LEFT_RECURSIVE_parse G P n this L = Returned r L'"
  shows "advances L L'"
proof (cases "SHAPE this")
  case Nil
  with assms(2) show ?thesis by (simp add: LEFT_RECURSIVE_parse_def)
next
  case (Cons shape0 tail)
  show ?thesis
  proof (cases "ShapeExp_parse G P n shape0 L")
    case (Returned r1 L1)
    note a = ShapeExp_parse_advances [OF assms(1) Returned]
    show ?thesis
    proof (cases r1)
      case None
      with assms(2) Cons Returned a show ?thesis by (simp add: LEFT_RECURSIVE_parse_def)
    next
      case (Some results)
      with assms(2) Cons Returned
      have "LEFT_RECURSIVE_loop G P n this (cursor L1) (array_at results 0) L1 = Returned r L'"
        by (simp add: LEFT_RECURSIVE_parse_def)
      from LEFT_RECURSIVE_loop_advances [OF assms(1) this, of "cursor L"] a show ?thesis
        by (simp add: advances_def)
    qed
  qed (use assms(2) Cons in \<open>simp_all add: LEFT_RECURSIVE_parse_def\<close>)
qed

lemma LEFT_RECURSIVE_parse_None:
  assumes "LEFT_RECURSIVE_parse G P n this L = Returned None L'"
  shows "cursor L' = cursor L \<or>
         (\<exists>L1. 0 < length (SHAPE this) \<and>
               ShapeExp_parse G P n (SHAPE this ! 0) L = Returned (Some []) L1 \<and>
               cursor L' = cursor L1)"
proof (cases "SHAPE this")
  case Nil
  with assms show ?thesis by (simp add: LEFT_RECURSIVE_parse_def)
next
  case (Cons shape0 tail)
  show ?thesis
  proof (cases "ShapeExp_parse G P n shape0 L")
    case (Returned r1 L1)
    show ?thesis
    proof (cases r1)
      case None
      with assms Cons Returned have "L' = L1" by (simp add: LEFT_RECURSIVE_parse_def)
      with ShapeExp_parse_None [of G P n shape0 L L1] Returned None show ?thesis by simp
    next
      case (Some results)
      with assms Cons Returned
      have "LEFT_RECURSIVE_loop G P n this (cursor L1) (array_at results 0) L1 = Returned None L'"
        by (simp add: LEFT_RECURSIVE_parse_def)
      from LEFT_RECURSIVE_loop_None [OF this]
      have "array_at results 0 = None" "cursor L' = cursor L1" by auto
      moreover from this(1) have "results = []"
        by (cases results) (simp_all add: array_at_def)
      ultimately show ?thesis using Cons Returned Some by auto
    qed
  qed (use assms Cons in \<open>simp_all add: LEFT_RECURSIVE_parse_def\<close>)
qed

lemma popCursor_pushed:
  "cursorStack L = st @ [c] \<Longrightarrow> popCursor L = L\<lparr>cursor := c, cursorStack := st\<rparr>"
  by (simp add: popCursor_def)

lemma isIndented_restores:
  assumes "isIndented baseIndent L = (b, L')"
  shows "str L' = str L \<and> cursorStack L' = cursorStack L \<and> cursor L' = cursor L"
proof -
  obtain ws L1 where w: "whitespace_loop [] (pushCursor L) = (ws, L1)"
    by (cases "whitespace_loop [] (pushCursor L)")
  obtain nextToken L2 where e: "eat (Some (PRegex NONSPACE_REGEX)) L1 = (nextToken, L2)"
    by (cases "eat (Some (PRegex NONSPACE_REGEX)) L1")
  from whitespace_loop_advances [OF w] eat_advances [OF e]
  have st: "cursorStack L2 = cursorStack L @ [cursor L]" and s: "str L2 = str L"
    by (simp_all add: pushCursor_def)
  from assms w e have "L' = popCursor L2" by (auto simp: isIndented_def)
  with popCursor_pushed [OF st] s show ?thesis by simp
qed

lemma block_result_cases: "block_result this exps = None \<or> (\<exists>e. block_result this exps = Some e)"
  by (cases exps) simp_all

lemma INDENT_BLOCK_loop_advances:
  assumes "sound_calls P"
  shows "INDENT_BLOCK_loop G P n this baseIndent exps L = Returned r L' \<Longrightarrow> advances L L'"
proof (induction n arbitrary: exps L)
  case 0
  then show ?case by simp
next
  case (Suc n)
  show ?case
  proof (cases "hasMoreToLex L")
    case False
    with Suc.prems show ?thesis by simp
  next
    case True
    obtain b L1 where i: "isIndented baseIndent L = (b, L1)" by (cases "isIndented baseIndent L")
    from isIndented_restores [OF i] have a1: "advances L L1" by (simp add: advances_def)
    show ?thesis
    proof (cases b)
      case False
      with Suc.prems True i a1 show ?thesis by simp
    next
      case b: True
      show ?thesis
      proof (cases "AST_parse G P n this L1")
        case (Returned r1 L2)
        note a2 = advances_trans [OF a1 AST_parse_advances [OF assms Returned]]
        show ?thesis
        proof (cases r1)
          case None
          with Suc.prems True i b Returned a2 show ?thesis by simp
        next
          case (Some e)
          show ?thesis
          proof (cases e)
            case (Tok x)
            with Suc.prems True i b Returned Some show ?thesis by simp
          next
            case (Node nm exps')
            with Suc.prems True i b Returned Some
            have "INDENT_BLOCK_loop G P n this baseIndent (exps @ exps') L2 = Returned r L'"
              by simp
            from a2 Suc.IH [OF this] show ?thesis by (rule advances_trans)
          qed
        qed
      qed (use Suc.prems True i b in simp_all)
    qed
  qed
qed

lemma INDENT_BLOCK_parse_advances:
  assumes "sound_calls P" and "INDENT_BLOCK_parse G P n this L = Returned r L'"
  shows "advances L L'"
proof -
  let ?L2 = "(pushCursor L)\<lparr>cursor := back_over_whitespace (str (pushCursor L)) (cursor (pushCursor L))\<rparr>"
  obtain prevToken L3 where e: "eat (Some (PRegex NONSPACE_REGEX)) ?L2 = (prevToken, L3)"
    by (cases "eat (Some (PRegex NONSPACE_REGEX)) ?L2")
  from eat_advances [OF e] have st: "cursorStack L3 = cursorStack L @ [cursor L]"
    and s: "str L3 = str L" by (simp_all add: pushCursor_def)
  let ?L4 = "popCursor L3"
  from popCursor_pushed [OF st] s have a4: "advances L ?L4" by (simp add: advances_def)
  let ?base = "case prevToken of Some t \<Rightarrow> Some (tok_indent t) | None \<Rightarrow> currentIndent ?L4"
  have loop: "advances L L'" if "INDENT_BLOCK_loop G P n this ?base [] ?L4 = Returned r L'"
    using a4 INDENT_BLOCK_loop_advances [OF assms(1) that] by (rule advances_trans)
  note body = assms(2) [unfolded INDENT_BLOCK_parse_def Let_def e prod.case]
  show ?thesis
  proof (cases prevToken)
    case None
    with body loop show ?thesis by simp
  next
    case (Some t)
    show ?thesis
    proof (cases "tok_line t = currentLine ?L4")
      case True
      with body Some obtain r1 where "AST_parse G P n this ?L4 = Returned r1 L'"
        by (auto split: run.splits option.splits)
      from a4 AST_parse_advances [OF assms(1) this] show ?thesis by (rule advances_trans)
    next
      case False
      with body Some loop a4 show ?thesis
        by (auto split: if_splits)
    qed
  qed
qed

lemma EXP_parse_advances:
  assumes "sound_calls P" and "EXP_parse G P n this L = Returned r L'"
  shows "advances L L'"
proof -
  from assms(2) obtain r1 where "AST_parse G P n this L = Returned r1 L'"
    by (auto simp: EXP_parse_def split: run.splits option.splits exp.splits)
  with assms(1) show ?thesis by (rule AST_parse_advances)
qed

lemma class_parse_advances:
  "sound_calls P \<Longrightarrow> class_parse G P n this L = Returned r L' \<Longrightarrow> advances L L'"
  by (cases "parseMethod this")
    (simp_all add: class_parse_def AST_parse_advances LEFT_RECURSIVE_parse_advances
      INDENT_BLOCK_parse_advances EXP_parse_advances)

lemma sound_calls_methods: "sound_calls (methods G n)"
proof (induction n)
  case 0
  show ?case by (simp add: sound_calls_def)
next
  case (Suc n)
  show ?case
    unfolding sound_calls_def methods.simps calls.simps
    using ShapeExp_parse_advances [OF Suc] AST_parse_advances [OF Suc]
      class_parse_advances [OF Suc] by blast
qed










section \<open>Missing tokens are white space\<close>

text \<open>
  C10: a token is classified as white space exactly when its value has no character that
  is not white space. The synthetic missing token always exists and has the empty value,
  so it is white space: it is left out of \<^verbatim>\<open>contentExps\<close> and \<^verbatim>\<open>contentTokens\<close> of
  any list of children that holds it, and the count that \<^verbatim>\<open>$AST.parse\<close> compares with
  \<^verbatim>\<open>incompleteParseThreshold\<close> is the same with and without it.
\<close>

theorem C10_missing_token_is_whitespace:
  "(isWhiteSpace t \<longleftrightarrow> (\<forall>c\<in>set (tok_value t). isWhiteSpaceChar c)) \<and>
   (\<exists>m L'. missing_token g L = (Some m, L')) \<and>
   (\<forall>m L'. missing_token g L = (Some m, L') \<longrightarrow>
      tok_value m = [] \<and> isMissing m \<and> isWhiteSpace m \<and>
      Tok m \<notin> set (contentExps (exps @ Tok m # exps')) \<and>
      m \<notin> set (contentTokens (exps @ Tok m # exps')) \<and>
      contentCount (exps @ Tok m # exps') = contentCount (exps @ exps'))"
proof (intro conjI allI impI)
  show "isWhiteSpace t \<longleftrightarrow> (\<forall>c\<in>set (tok_value t). isWhiteSpaceChar c)"
    by (rule isWhiteSpace_iff)
  show "\<exists>m L'. missing_token g L = (Some m, L')"
    using missing_token_Some [of g L] by blast
next
  fix m L'
  assume a: "missing_token g L = (Some m, L')"
  with missing_token_Some [of g L] show v: "tok_value m = []" and "isMissing m" by auto
  then show w: "isWhiteSpace m" by (simp add: isWhiteSpace_iff)
  then show "Tok m \<notin> set (contentExps (exps @ Tok m # exps'))"
    by (auto simp: contentExps_def)
  from w show "m \<notin> set (contentTokens (exps @ Tok m # exps'))"
    by (simp add: contentTokens_def)
  from v show "contentCount (exps @ Tok m # exps') = contentCount (exps @ exps')"
    by (simp add: contentCount_def trim_def trimEnd_def trimStart_def)
qed

text \<open>The theorem for the missing token made at the start of the input \<^verbatim>\<open>"1 +"\<close>.\<close>

theorem C10_missing_token_is_whitespace_witness:
  "\<exists>m L'. missing_token (new_ShapeExp (AST_EXP ''$NUMBER'') None) (Lexer ''1 +'') = (Some m, L') \<and>
     isWhiteSpace m \<and> contentCount ([] @ Tok m # []) = contentCount ([] @ [])"
  using C10_missing_token_is_whitespace
    [of undefined "new_ShapeExp (AST_EXP ''$NUMBER'') None" "Lexer ''1 +''" "[]" "[]"]
  by blast

section \<open>Incomplete parses and their diagnostics\<close>

text \<open>
  C5: let \<^verbatim>\<open>$AST.parse\<close>, entered with the lexer \<open>L0\<close>, have reached a shape position
  with the children \<open>exps\<close>, and let the expression at that position fail while
  \<^verbatim>\<open>allowIncompleteParse\<close> holds and the children gathered so far count at least
  \<^verbatim>\<open>incompleteParseThreshold\<close>. Then the loop goes on at the next position with one more
  child: a token with the empty value that starts and ends at the current cursor (which
  the failed expression has left where it was), has \<^verbatim>\<open>isMissing\<close> set and refers back to
  the failed expression. Whenever the remaining positions let the loop run to its end,
  \<^verbatim>\<open>$AST.parse\<close> returns a node of the class whose children are \<open>exps\<close>, then that token,
  then the children of the remaining positions. \<^verbatim>\<open>validate\<close> on that node gives for the
  token exactly one diagnostic, at its line and column and with the message of the
  expression, when the expression has one, and none when it has not (an empty message
  is falsy and counts as none); in all, it gives one such diagnostic for each missing
  token with a message, in the order of the tokens, and nothing else.
\<close>

theorem C5_missing_token_and_diagnostics:
  assumes "(AST_continues G P n this)\<^sup>*\<^sup>* ([], 0, L0) (exps, shapeIndex, L)"
    and "shapeIndex < length (SHAPE this)"
    and "ShapeExp_parse G P n (SHAPE this ! shapeIndex) L = Returned None L1"
    and "allowIncompleteParse this"
    and "incompleteParseThreshold this \<le> int (contentCount exps)"
  shows "\<exists>token L2.
           tok_value token = [] \<and> tok_start token = cursor L \<and> tok_end token = cursor L \<and>
           cursor L2 = cursor L \<and> isMissing token \<and>
           tok_shapeExp token = Some (after_parse (SHAPE this ! shapeIndex)) \<and>
           validate [Tok token] =
             (case exp_e (SHAPE this ! shapeIndex) of
                None \<Rightarrow> []
              | Some m \<Rightarrow>
                  if m = [] then []
                  else [\<lparr>err_line = tok_line token, err_col = tok_col token, err_message = m\<rparr>]) \<and>
           (\<exists>firstExp firstExpCursor.
              AST_parse G P n this L0 =
                AST_loop G P n this (cursor L0) firstExp firstExpCursor (exps @ [Tok token])
                  (shapeIndex + 1) L2) \<and>
           (\<forall>exps' L'.
              (AST_continues G P n this)\<^sup>*\<^sup>* (exps @ [Tok token], shapeIndex + 1, L2)
                (exps', length (SHAPE this), L') \<longrightarrow>
              AST_parse G P n this L0 = Returned (Some (Node (className this) exps')) L' \<and>
              (\<exists>rest. exps' = exps @ Tok token # rest \<and>
                 validate exps' = validate exps @ validate [Tok token] @ validate rest) \<and>
              validate exps' =
                map (\<lambda>t. \<lparr>err_line = tok_line t, err_col = tok_col t,
                          err_message = the (message_of t)\<rparr>)
                  (filter (\<lambda>t. isMissing t \<and> message_of t \<noteq> None) (tokens exps')))"
proof -
  let ?g = "SHAPE this ! shapeIndex"
  let ?R = "AST_continues G P n this"
  from missing_token_Some [of "after_parse ?g" L1] obtain token L2 where
    m: "missing_token (after_parse ?g) L1 = (Some token, L2)"
    and t: "tok_value token = []" "isMissing token" "tok_shapeExp token = Some (after_parse ?g)"
      "tok_start token = cursor L1" "tok_end token = cursor L1" "cursor L2 = cursor L1"
    by blast
  have c: "cursor L1 = cursor L" using assms(3) by (rule ShapeExp_parse_None)
  have v: "validate [Tok token] =
      (case exp_e ?g of
         None \<Rightarrow> []
       | Some m \<Rightarrow>
           if m = [] then []
           else [\<lparr>err_line = tok_line token, err_col = tok_col token, err_message = m\<rparr>])"
    using t by (simp add: validate_def tokens_def message_of_def exp_e_after_parse split: option.splits)
  have step: "?R (exps, shapeIndex, L) (exps @ [Tok token], shapeIndex + 1, L2)"
    using assms(2,3,4,5) m by (rule AST_continues.missing)
  with assms(1) have reach: "?R\<^sup>*\<^sup>* ([], 0, L0) (exps @ [Tok token], shapeIndex + 1, L2)"
    by (rule rtranclp.rtrancl_into_rtrancl)
  from AST_parse_reaches [OF reach]
  have next_position: "\<exists>firstExp firstExpCursor.
      AST_parse G P n this L0 =
        AST_loop G P n this (cursor L0) firstExp firstExpCursor (exps @ [Tok token])
          (shapeIndex + 1) L2"
    by simp
  have completion:
    "AST_parse G P n this L0 = Returned (Some (Node (className this) exps')) L' \<and>
     (\<exists>rest. exps' = exps @ Tok token # rest \<and>
        validate exps' = validate exps @ validate [Tok token] @ validate rest) \<and>
     validate exps' =
       map (\<lambda>t. \<lparr>err_line = tok_line t, err_col = tok_col t, err_message = the (message_of t)\<rparr>)
         (filter (\<lambda>t. isMissing t \<and> message_of t \<noteq> None) (tokens exps'))"
    if rest: "?R\<^sup>*\<^sup>* (exps @ [Tok token], shapeIndex + 1, L2) (exps', length (SHAPE this), L')"
    for exps' L'
  proof -
    from reach rest have "?R\<^sup>*\<^sup>* ([], 0, L0) (exps', length (SHAPE this), L')"
      by (rule rtranclp_trans)
    from AST_parse_reaches [OF this]
    have 1: "AST_parse G P n this L0 = Returned (Some (Node (className this) exps')) L'"
      by (auto simp: AST_loop_end)
    from AST_continues_appends [OF rest] obtain rest' where
      r: "exps' = exps @ Tok token # rest'" by auto
    then have "validate exps' = validate exps @ validate [Tok token] @ validate rest'"
      using validate_append [of exps "[Tok token] @ rest'"] validate_append [of "[Tok token]" rest']
      by simp
    with r have 2: "\<exists>rest. exps' = exps @ Tok token # rest \<and>
        validate exps' = validate exps @ validate [Tok token] @ validate rest" by blast
    from 1 2 validate_eq [of exps'] show ?thesis by blast
  qed
  from t c have pos: "tok_start token = cursor L" "tok_end token = cursor L" "cursor L2 = cursor L"
    by simp_all
  from completion have all_completions: "\<forall>exps' L'.
      ?R\<^sup>*\<^sup>* (exps @ [Tok token], shapeIndex + 1, L2) (exps', length (SHAPE this), L') \<longrightarrow>
      AST_parse G P n this L0 = Returned (Some (Node (className this) exps')) L' \<and>
      (\<exists>rest. exps' = exps @ Tok token # rest \<and>
         validate exps' = validate exps @ validate [Tok token] @ validate rest) \<and>
      validate exps' =
        map (\<lambda>t. \<lparr>err_line = tok_line t, err_col = tok_col t, err_message = the (message_of t)\<rparr>)
          (filter (\<lambda>t. isMissing t \<and> message_of t \<noteq> None) (tokens exps'))"
    by (intro allI impI)
  note facts = t(1) pos t(2,3) v next_position all_completions
  show ?thesis
    by (intro exI [of _ token] exI [of _ L2] conjI) (rule facts)+
qed

text \<open>
  The theorem on \<^verbatim>\<open>"1 +"\<close> with \<open>ADD_INCOMPLETE\<close>: after \<^verbatim>\<open>1\<close> and \<^verbatim>\<open>+\<close> the
  last \<^verbatim>\<open>$NUMBER\<close> fails at cursor 3 and two children count, so \<^verbatim>\<open>$AST.parse\<close> returns
  the node \<^verbatim>\<open>$ADD\<close> whose last child is the missing token, and \<^verbatim>\<open>validate\<close> on the
  node gives the one diagnostic \<^verbatim>\<open>"number expected"\<close> at line 0, column 3.
\<close>

theorem C5_missing_token_and_diagnostics_witness:
  "\<exists>exps' L' token.
     AST_parse README_grammar (methods README_grammar 3) 3 ADD_INCOMPLETE (Lexer ''1 +'') =
       Returned (Some (Node ''$ADD'' exps')) L' \<and>
     last exps' = Tok token \<and> tok_value token = [] \<and> tok_start token = 3 \<and> isMissing token \<and>
     validate exps' = [\<lparr>err_line = 0, err_col = 3, err_message = ''number expected''\<rparr>]"
proof -
  let ?G = README_grammar and ?P = "methods README_grammar 3"
  let ?R = "AST_continues ?G ?P 3 ADD_INCOMPLETE"
  have "case ShapeExp_parse ?G ?P 3 (SHAPE ADD_INCOMPLETE ! 0) (Lexer ''1 +'') of
          Returned (Some rs) L1 \<Rightarrow>
            (case ShapeExp_parse ?G ?P 3 (SHAPE ADD_INCOMPLETE ! 1) L1 of
               Returned (Some rs2) L2 \<Rightarrow>
                 contentCount (rs @ rs2) = 2 \<and> cursor L2 = 3 \<and> List.null (validate (rs @ rs2)) \<and>
                 (case ShapeExp_parse ?G ?P 3 (SHAPE ADD_INCOMPLETE ! 2) L2 of
                    Returned None L3 \<Rightarrow> True
                  | _ \<Rightarrow> False)
             | _ \<Rightarrow> False)
        | _ \<Rightarrow> False"
    by code_simp
  then obtain rs L1 rs2 L2 L3 where
    p0: "ShapeExp_parse ?G ?P 3 (SHAPE ADD_INCOMPLETE ! 0) (Lexer ''1 +'') = Returned (Some rs) L1"
    and p1: "ShapeExp_parse ?G ?P 3 (SHAPE ADD_INCOMPLETE ! 1) L1 = Returned (Some rs2) L2"
    and cc: "contentCount (rs @ rs2) = 2" and c2: "cursor L2 = 3"
    and v0: "List.null (validate (rs @ rs2))"
    and p2: "ShapeExp_parse ?G ?P 3 (SHAPE ADD_INCOMPLETE ! 2) L2 = Returned None L3"
    by (elim run_case_SomeE run_case_NoneE conjE)
  have "case AST_parse ?G ?P 3 ADD_INCOMPLETE (Lexer ''1 +'') of
          Returned (Some (Node nm es)) L' \<Rightarrow>
            (case last es of Tok t \<Rightarrow> tok_line t = 0 \<and> tok_col t = 3 | _ \<Rightarrow> False)
        | _ \<Rightarrow> False"
    by code_simp
  then have pos: "tok_line t = 0 \<and> tok_col t = 3"
    if "AST_parse ?G ?P 3 ADD_INCOMPLETE (Lexer ''1 +'') = Returned (Some (Node nm (es @ [Tok t]))) L'"
    for nm es t L'
    using that by simp
  have a: "length (SHAPE ADD_INCOMPLETE) = 3" "allowIncompleteParse ADD_INCOMPLETE"
    "incompleteParseThreshold ADD_INCOMPLETE \<le> int (contentCount (rs @ rs2))"
    "exp_e (SHAPE ADD_INCOMPLETE ! 2) = Some ''number expected''"
    "className ADD_INCOMPLETE = ''$ADD''"
    using cc by (simp_all add: ADD_INCOMPLETE_def)
  have "?R ([], 0, Lexer ''1 +'') ([] @ rs, 0 + 1, L1)"
    using p0 a(1) by (intro AST_continues.matched) simp_all
  then have s1: "?R ([], 0, Lexer ''1 +'') (rs, 1, L1)" by simp
  have "?R (rs, 1, L1) (rs @ rs2, 1 + 1, L2)"
    using p1 a(1) by (intro AST_continues.matched) simp_all
  then have s2: "?R (rs, 1, L1) (rs @ rs2, 2, L2)" by (simp only: one_add_one)
  from s1 s2 have reach: "?R\<^sup>*\<^sup>* ([], 0, Lexer ''1 +'') (rs @ rs2, 2, L2)"
    by (rule rtranclp.rtrancl_into_rtrancl [OF r_into_rtranclp])
  have i: "2 < length (SHAPE ADD_INCOMPLETE)" using a(1) by simp
  from C5_missing_token_and_diagnostics [OF reach i p2 a(2) a(3)]
  obtain token L2a where
    t: "tok_value token = []" "tok_start token = cursor L2" "isMissing token"
    and v: "validate [Tok token] =
       (case exp_e (SHAPE ADD_INCOMPLETE ! 2) of
          None \<Rightarrow> []
        | Some m \<Rightarrow>
            if m = [] then []
            else [\<lparr>err_line = tok_line token, err_col = tok_col token, err_message = m\<rparr>])"
    and completion: "\<And>exps' L'.
       ?R\<^sup>*\<^sup>* ((rs @ rs2) @ [Tok token], 2 + 1, L2a) (exps', length (SHAPE ADD_INCOMPLETE), L') \<Longrightarrow>
       AST_parse ?G ?P 3 ADD_INCOMPLETE (Lexer ''1 +'') =
         Returned (Some (Node (className ADD_INCOMPLETE) exps')) L' \<and>
       (\<exists>rest. exps' = (rs @ rs2) @ Tok token # rest \<and>
          validate exps' = validate (rs @ rs2) @ validate [Tok token] @ validate rest)"
    by blast
  have "?R\<^sup>*\<^sup>* ((rs @ rs2) @ [Tok token], 2 + 1, L2a)
      ((rs @ rs2) @ [Tok token], length (SHAPE ADD_INCOMPLETE), L2a)"
    by (simp add: a(1))
  from completion [OF this] have
    r: "AST_parse ?G ?P 3 ADD_INCOMPLETE (Lexer ''1 +'') =
          Returned (Some (Node ''$ADD'' ((rs @ rs2) @ [Tok token]))) L2a"
    and w: "validate ((rs @ rs2) @ [Tok token]) = validate (rs @ rs2) @ validate [Tok token]"
    by (auto simp: a(5) validate_def tokens_def)
  from pos [OF r] have p: "tok_line token = 0" "tok_col token = 3" by simp_all
  from v0 have "validate (rs @ rs2) = []" by (cases "validate (rs @ rs2)") simp_all
  with w v a(4) p have
    "validate ((rs @ rs2) @ [Tok token]) = [\<lparr>err_line = 0, err_col = 3, err_message = ''number expected''\<rparr>]"
    by simp
  with r t c2 show ?thesis
    by (intro exI [of _ "(rs @ rs2) @ [Tok token]"] exI [of _ L2a] exI [of _ token]) simp
qed


section \<open>Falling back to the first expression\<close>

text \<open>
  C4: let the first shape expression of a kind be no literal or pattern and succeed with
  the children \<open>results\<close>, leaving the lexer \<open>L1\<close>. When the loop of \<^verbatim>\<open>$AST.parse\<close> then
  reaches a later position whose expression fails, the incomplete-parse branch does not
  apply and \<^verbatim>\<open>fallbackToFirstExp\<close> holds, \<^verbatim>\<open>$AST.parse\<close> returns \<^verbatim>\<open>results[0]\<close>, the
  first element that the first expression produced (\<^verbatim>\<open>undefined\<close> if it produced none),
  and the cursor on exit is the cursor of \<open>L1\<close>.
\<close>

theorem C4_fallback_to_first_exp:
  assumes "0 < length (SHAPE this)"
    and "\<not> is_TEXT_EXP (after_parse (SHAPE this ! 0))"
    and "ShapeExp_parse G P n (SHAPE this ! 0) L = Returned (Some results) L1"
    and "(AST_continues G P n this)\<^sup>*\<^sup>* (results, 1, L1) (exps, shapeIndex, L2)"
    and "shapeIndex < length (SHAPE this)"
    and "ShapeExp_parse G P n (SHAPE this ! shapeIndex) L2 = Returned None L3"
    and "\<not> (allowIncompleteParse this \<and> incompleteParseThreshold this \<le> int (contentCount exps))"
    and "fallbackToFirstExp this"
  shows "AST_parse G P n this L = Returned (array_at results 0) (L3\<lparr>cursor := cursor L1\<rparr>)"
  using assms by (rule AST_parse_fallback)

text \<open>
  The theorem on \<^verbatim>\<open>"2+"\<close> with \<^verbatim>\<open>$ADD\<close>: \<^verbatim>\<open>$NUMBER\<close> and \<^verbatim>\<open>+\<close> match, the second
  \<^verbatim>\<open>$NUMBER\<close> fails, and the parse returns the first number with the cursor at 1.
\<close>

theorem C4_fallback_to_first_exp_witness:
  "\<exists>results L1 L3.
     ShapeExp_parse README_grammar (methods README_grammar 3) 3 (SHAPE ADD ! 0) (Lexer ''2+'') =
       Returned (Some results) L1 \<and>
     cursor L1 = 1 \<and>
     AST_parse README_grammar (methods README_grammar 3) 3 ADD (Lexer ''2+'') =
       Returned (array_at results 0) (L3\<lparr>cursor := cursor L1\<rparr>)"
proof -
  let ?G = README_grammar and ?P = "methods README_grammar 3"
  have "case ShapeExp_parse ?G ?P 3 (SHAPE ADD ! 0) (Lexer ''2+'') of
          Returned (Some rs) L1 \<Rightarrow>
            cursor L1 = 1 \<and>
            (case ShapeExp_parse ?G ?P 3 (SHAPE ADD ! 1) L1 of
               Returned (Some rs2) L2 \<Rightarrow>
                 (case ShapeExp_parse ?G ?P 3 (SHAPE ADD ! 2) L2 of
                    Returned None L3 \<Rightarrow> True
                  | _ \<Rightarrow> False)
             | _ \<Rightarrow> False)
        | _ \<Rightarrow> False"
    by code_simp
  then obtain rs L1 rs2 L2 L3 where
    p0: "ShapeExp_parse ?G ?P 3 (SHAPE ADD ! 0) (Lexer ''2+'') = Returned (Some rs) L1"
    and c1: "cursor L1 = 1"
    and p1: "ShapeExp_parse ?G ?P 3 (SHAPE ADD ! 1) L1 = Returned (Some rs2) L2"
    and p2: "ShapeExp_parse ?G ?P 3 (SHAPE ADD ! 2) L2 = Returned None L3"
    by (elim run_case_SomeE run_case_NoneE conjE)
  have len: "length (SHAPE ADD) = 3" by (simp add: ADD_def AST_class_def)
  have "AST_continues ?G ?P 3 ADD (rs, 1, L1) (rs @ rs2, 1 + 1, L2)"
    using p1 len by (intro AST_continues.matched) simp_all
  then have "AST_continues ?G ?P 3 ADD (rs, 1, L1) (rs @ rs2, 2, L2)"
    by (simp only: one_add_one)
  then have steps: "(AST_continues ?G ?P 3 ADD)\<^sup>*\<^sup>* (rs, 1, L1) (rs @ rs2, 2, L2)"
    by (rule r_into_rtranclp)
  have "AST_parse ?G ?P 3 ADD (Lexer ''2+'') = Returned (array_at rs 0) (L3\<lparr>cursor := cursor L1\<rparr>)"
    using p0 steps p2 len
    by (intro C4_fallback_to_first_exp [where shapeIndex = 2 and exps = "rs @ rs2" and ?L2.0 = L2])
      (simp_all add: ADD_def AST_class_def new_ShapeExp_def after_parse_def)
  with p0 c1 show ?thesis by blast
qed


section \<open>The left-recursive driver after a fold\<close>

text \<open>
  C6 asks that the cursor be restored to the position reached after the most recent
  successful fold when the tail fails. \<^verbatim>\<open>leftCursor\<close> is assigned before the loop only:
  on \<^verbatim>\<open>"1+2+"\<close> the first tail \<^verbatim>\<open>+2\<close> is folded, the second tail fails, and the driver
  returns the node of \<^verbatim>\<open>1+2\<close> with the cursor at 1, the position after the first
  expression, instead of 3.
\<close>

theorem C6_left_recursive_stale_cursor:
  "case parse README_grammar 4 ADD_LEFT (Lexer ''1+2+'') of
     Returned (Some exp) L' \<Rightarrow>
       map tok_value (exp_tokens exp) = [''1'', ''+'', ''2''] \<and> cursor L' = 1
   | _ \<Rightarrow> False"
  by code_simp


section \<open>The cursor after a parse\<close>

text \<open>
  What holds of every parse: a \<^verbatim>\<open>ShapeExp.parse\<close> that returns has not moved the cursor
  back, and one that returns nothing has left it exactly where it was. \<^verbatim>\<open>$AST.parse\<close>,
  the left-recursive driver, the indentation-block driver and the parse of any class
  never leave the cursor before its entry position when they return. When \<^verbatim>\<open>$AST.parse\<close>
  or the left-recursive driver returns nothing, the cursor is at its entry position
  unless the first shape expression has succeeded with an empty list of children.
\<close>

lemma cursor_after_parse:
  "(ShapeExp_parse G (methods G m) n g L = Returned r1 L1 \<longrightarrow>
      cursor L \<le> cursor L1 \<and> (r1 = None \<longrightarrow> cursor L1 = cursor L)) \<and>
   (AST_parse G (methods G m) n this L = Returned r2 L2 \<longrightarrow>
      cursor L \<le> cursor L2 \<and>
      (r2 = None \<longrightarrow>
         cursor L2 = cursor L \<or>
         (\<exists>La. 0 < length (SHAPE this) \<and> \<not> is_TEXT_EXP (after_parse (SHAPE this ! 0)) \<and>
               ShapeExp_parse G (methods G m) n (SHAPE this ! 0) L = Returned (Some []) La \<and>
               cursor L2 = cursor La))) \<and>
   (LEFT_RECURSIVE_parse G (methods G m) n this L = Returned r3 L3 \<longrightarrow>
      cursor L \<le> cursor L3 \<and>
      (r3 = None \<longrightarrow>
         cursor L3 = cursor L \<or>
         (\<exists>La. 0 < length (SHAPE this) \<and>
               ShapeExp_parse G (methods G m) n (SHAPE this ! 0) L = Returned (Some []) La \<and>
               cursor L3 = cursor La))) \<and>
   (INDENT_BLOCK_parse G (methods G m) n this L = Returned r4 L4 \<longrightarrow> cursor L \<le> cursor L4) \<and>
   (class_parse G (methods G m) n this L = Returned r5 L5 \<longrightarrow> cursor L \<le> cursor L5) \<and>
   (parse G n this L = Returned r6 L6 \<longrightarrow> cursor L \<le> cursor L6)"
proof -
  note s = sound_calls_methods [of G m]
  have 1: "cursor L \<le> cursor L1 \<and> (r1 = None \<longrightarrow> cursor L1 = cursor L)"
    if "ShapeExp_parse G (methods G m) n g L = Returned r1 L1"
    using ShapeExp_parse_advances [OF s that] ShapeExp_parse_None [of G "methods G m" n g L L1] that
    by (auto simp: advances_def)
  have 2: "cursor L \<le> cursor L2 \<and>
      (r2 = None \<longrightarrow>
         cursor L2 = cursor L \<or>
         (\<exists>La. 0 < length (SHAPE this) \<and> \<not> is_TEXT_EXP (after_parse (SHAPE this ! 0)) \<and>
               ShapeExp_parse G (methods G m) n (SHAPE this ! 0) L = Returned (Some []) La \<and>
               cursor L2 = cursor La))"
    if "AST_parse G (methods G m) n this L = Returned r2 L2"
    using AST_parse_advances [OF s that] AST_parse_None [of G "methods G m" n this L L2] that
    by (auto simp: advances_def)
  have 3: "cursor L \<le> cursor L3 \<and>
      (r3 = None \<longrightarrow>
         cursor L3 = cursor L \<or>
         (\<exists>La. 0 < length (SHAPE this) \<and>
               ShapeExp_parse G (methods G m) n (SHAPE this ! 0) L = Returned (Some []) La \<and>
               cursor L3 = cursor La))"
    if "LEFT_RECURSIVE_parse G (methods G m) n this L = Returned r3 L3"
    using LEFT_RECURSIVE_parse_advances [OF s that]
      LEFT_RECURSIVE_parse_None [of G "methods G m" n this L L3] that
    by (auto simp: advances_def)
  have 4: "cursor L \<le> cursor L4"
    if "INDENT_BLOCK_parse G (methods G m) n this L = Returned r4 L4"
    using INDENT_BLOCK_parse_advances [OF s that] by (simp add: advances_def)
  have 5: "cursor L \<le> cursor L5" if "class_parse G (methods G m) n this L = Returned r5 L5"
    using class_parse_advances [OF s that] by (simp add: advances_def)
  have 6: "cursor L \<le> cursor L6" if "parse G n this L = Returned r6 L6"
    using class_parse_advances [OF sound_calls_methods that [unfolded parse_def]]
    by (simp add: advances_def)
  from 1 2 3 4 5 6 show ?thesis by blast
qed

text \<open>
  C2 asks that a parse that returns nothing leave the cursor where it was on entry.
  \<^verbatim>\<open>$AST.parse\<close> captures \<^verbatim>\<open>firstExp = results[0]\<close> and \<^verbatim>\<open>firstExpCursor\<close> whenever its
  first expression is no literal and returns an array, also an empty one. In \<open>GROUPED\<close>
  the first expression is an optional sub-shape. On \<^verbatim>\<open>"ab"\<close> the class of the sub-shape
  falls back to the token \<^verbatim>\<open>a\<close>, which has no \<^verbatim>\<open>exps\<close>, so the expression gives up at
  its lower bound 0 with no children and without restoring the cursor; the literal
  \<^verbatim>\<open>"z"\<close> then fails and \<^verbatim>\<open>$AST.parse\<close> returns \<^verbatim>\<open>undefined\<close> with the cursor at 1, not
  at 0. On \<^verbatim>\<open>"az"\<close> the same path succeeds with the cursor at 2 and a node that holds the
  token \<^verbatim>\<open>z\<close> only: the character \<^verbatim>\<open>a\<close> is in no token of the result.
\<close>

theorem C2_failed_parse_leaves_cursor_advanced:
  "(case parse README_grammar 5 GROUPED (Lexer ''ab'') of
      Returned None L' \<Rightarrow> cursor (Lexer ''ab'') = 0 \<and> cursor L' = 1
    | _ \<Rightarrow> False) \<and>
   (case parse README_grammar 5 GROUPED (Lexer ''az'') of
      Returned (Some (Node nm exps)) L' \<Rightarrow>
        (case tokens exps of
           [t] \<Rightarrow> tok_value t = ''z'' \<and> tok_start t = 1 \<and> cursor L' = 2
         | _ \<Rightarrow> False)
    | _ \<Rightarrow> False)"
  by code_simp


section \<open>What a successful ShapeExp.parse returns\<close>





section \<open>Sub-shapes fall back to their first expression\<close>

text \<open>
  C9, as stated: when the first element of a sub-shape is no literal and succeeds while a
  later element fails, the sub-shape still produces a result, the first element's first
  child, rather than failing cleanly. The class of the sub-shape does return that child,
  but \<^verbatim>\<open>ShapeExp.parse\<close> takes \<^verbatim>\<open>ast.exps\<close> of it: for \<^verbatim>\<open>new Shape(["a"], "c")\<close> on
  \<^verbatim>\<open>"ab"\<close> the child is the token \<^verbatim>\<open>a\<close>, \<^verbatim>\<open>ast.exps\<close> is \<^verbatim>\<open>undefined\<close>, and the
  expression fails with the cursor back at 0.
\<close>

theorem C9_counterexample:
  "case ShapeExp_parse README_grammar (methods README_grammar 4) 4
          (new_ShapeExp (SUB_SHAPE_EXP A_THEN_C) None) (Lexer ''ab'') of
     Returned None L' \<Rightarrow> cursor L' = cursor (Lexer ''ab'')
   | _ \<Rightarrow> False"
  by code_simp

text \<open>
  C9, amended: the class made for a sub-shape has \<^verbatim>\<open>fallbackToFirstExp = true\<close> and
  \<^verbatim>\<open>allowIncompleteParse = false\<close>. So when the first element of the sub-shape is no
  literal or pattern and succeeds with the children \<open>results\<close>, and a later element fails,
  the class returns \<^verbatim>\<open>results[0]\<close> with the cursor where the first element left it; the
  result of the sub-shape expression is then the \<^verbatim>\<open>exps\<close> of that child when it is a
  node, and nothing when it is a token or there is none.
\<close>

theorem C9_sub_shape_falls_back:
  assumes "exp_value this = SUB_SHAPE_EXP shape"
    and "0 < length shape" and "\<not> is_TEXT_EXP (after_parse (shape ! 0))"
    and "ShapeExp_parse G (methods G m) m (shape ! 0) L = Returned (Some results) L1"
    and "(AST_continues G (methods G m) m (SUB_SHAPE_AST shape))\<^sup>*\<^sup>*
           (results, 1, L1) (exps, shapeIndex, L2)"
    and "shapeIndex < length shape"
    and "ShapeExp_parse G (methods G m) m (shape ! shapeIndex) L2 = Returned None L3"
  shows "fallbackToFirstExp (SUB_SHAPE_AST shape) \<and> \<not> allowIncompleteParse (SUB_SHAPE_AST shape) \<and>
         AST_parse G (methods G m) m (SUB_SHAPE_AST shape) L =
           Returned (array_at results 0) (L3\<lparr>cursor := cursor L1\<rparr>) \<and>
         ShapeExp_result G (methods G (Suc m)) this L =
           Returned
             (case array_at results 0 of
                None \<Rightarrow> None
              | Some (Tok t) \<Rightarrow> None
              | Some (Node nm children) \<Rightarrow> Some children)
             (L3\<lparr>cursor := cursor L1\<rparr>)"
proof -
  have d: "fallbackToFirstExp (SUB_SHAPE_AST shape)" "\<not> allowIncompleteParse (SUB_SHAPE_AST shape)"
    "SHAPE (SUB_SHAPE_AST shape) = shape"
    by (simp_all add: SUB_SHAPE_AST_def AST_class_def)
  have p: "AST_parse G (methods G m) m (SUB_SHAPE_AST shape) L =
      Returned (array_at results 0) (L3\<lparr>cursor := cursor L1\<rparr>)"
    using assms(2-7) d by (intro AST_parse_fallback [where exps = exps and shapeIndex = shapeIndex and ?L2.0 = L2]) simp_all
  have "ShapeExp_result G (methods G (Suc m)) this L =
      Returned
        (case array_at results 0 of
           None \<Rightarrow> None
         | Some (Tok t) \<Rightarrow> None
         | Some (Node nm children) \<Rightarrow> Some children)
        (L3\<lparr>cursor := cursor L1\<rparr>)"
    using assms(1) p by (simp add: ShapeExp_result_def split: option.splits exp.splits)
  with d(1,2) p show ?thesis by simp
qed

text \<open>
  The theorem for the sub-shape \<^verbatim>\<open>new Shape($NUMBER, "+")\<close> on \<^verbatim>\<open>"1"\<close>: the number
  matches, \<^verbatim>\<open>"+"\<close> fails, and the result is the token of the number node.
\<close>

theorem C9_sub_shape_falls_back_witness:
  "\<exists>children L'.
     ShapeExp_result README_grammar (methods README_grammar (Suc 3))
       (new_ShapeExp (SUB_SHAPE_EXP NUMBER_THEN_PLUS) None) (Lexer ''1'') =
         Returned (Some children) L' \<and>
     map tok_value (tokens children) = [''1''] \<and> cursor L' = 1"
proof -
  let ?G = README_grammar and ?P = "methods README_grammar 3"
  have "case ShapeExp_parse ?G ?P 3 (NUMBER_THEN_PLUS ! 0) (Lexer ''1'') of
          Returned (Some rs) L1 \<Rightarrow>
            (case ShapeExp_parse ?G ?P 3 (NUMBER_THEN_PLUS ! 1) L1 of
               Returned None L3 \<Rightarrow>
                 cursor L1 = 1 \<and>
                 (case array_at rs 0 of
                    Some (Node nm children) \<Rightarrow> map tok_value (tokens children) = [''1'']
                  | _ \<Rightarrow> False)
             | _ \<Rightarrow> False)
        | _ \<Rightarrow> False"
    by code_simp
  then obtain rs L1 L3 where
    p0: "ShapeExp_parse ?G ?P 3 (NUMBER_THEN_PLUS ! 0) (Lexer ''1'') = Returned (Some rs) L1"
    and p1: "ShapeExp_parse ?G ?P 3 (NUMBER_THEN_PLUS ! 1) L1 = Returned None L3"
    and c: "cursor L1 = 1"
    and r: "case array_at rs 0 of
              Some (Node nm children) \<Rightarrow> map tok_value (tokens children) = [''1'']
            | _ \<Rightarrow> False"
    by (elim run_case_SomeE run_case_NoneE conjE)
  from r obtain nm children where rs: "array_at rs 0 = Some (Node nm children)"
    and t: "map tok_value (tokens children) = [''1'']"
    by (auto split: option.splits exp.splits)
  have a: "exp_value (new_ShapeExp (SUB_SHAPE_EXP NUMBER_THEN_PLUS) None) = SUB_SHAPE_EXP NUMBER_THEN_PLUS"
    "0 < length NUMBER_THEN_PLUS" "\<not> is_TEXT_EXP (after_parse (NUMBER_THEN_PLUS ! 0))"
    "1 < length NUMBER_THEN_PLUS"
    by (simp_all add: new_ShapeExp_def NUMBER_THEN_PLUS_def after_parse_def)
  have steps: "(AST_continues ?G ?P 3 (SUB_SHAPE_AST NUMBER_THEN_PLUS))\<^sup>*\<^sup>* (rs, 1, L1) (rs, 1, L1)"
    by simp
  from C9_sub_shape_falls_back [OF a(1,2,3) p0 steps a(4) p1] rs t c
  show ?thesis by simp
qed


section \<open>The position of a token\<close>

lemma binarySearch_loop_finds:
  fixes xs :: "(int \<times> int) list" and x :: int
  defines "cb \<equiv> (\<lambda>(start, end). if x < start then - 1 else if x > end then 1 else (0::int))"
  assumes chained: "\<And>i. Suc i < length xs \<Longrightarrow> snd (xs ! i) + 1 = fst (xs ! Suc i)"
    and first: "xs \<noteq> []" "fst (xs ! 0) \<le> x" and last: "x \<le> snd (xs ! (length xs - 1))"
  shows "0 \<le> low \<Longrightarrow> high < int (length xs) \<Longrightarrow> low \<le> high + 1 \<Longrightarrow>
         (0 < low \<longrightarrow> snd (xs ! nat (low - 1)) < x) \<Longrightarrow>
         (high < int (length xs) - 1 \<longrightarrow> x < fst (xs ! nat (high + 1))) \<Longrightarrow>
         0 \<le> binarySearch_loop cb xs low high \<and>
         binarySearch_loop cb xs low high < int (length xs) \<and>
         fst (xs ! nat (binarySearch_loop cb xs low high)) \<le> x \<and>
         x \<le> snd (xs ! nat (binarySearch_loop cb xs low high))"
proof (induction "nat (high - low + 1)" arbitrary: low high rule: less_induct)
  case less
  show ?case
  proof (cases "low \<le> high")
    case False
    with less.prems(3) have eq: "low = high + 1" by simp
    show ?thesis
    proof (cases "low = 0")
      case True
      with eq less.prems(5) first have "x < fst (xs ! 0)" by (cases xs) auto
      with first(2) show ?thesis by simp
    next
      case False
      with less.prems(1) have pos: "0 < low" by simp
      with less.prems(4) have a: "snd (xs ! nat (low - 1)) < x" by simp
      show ?thesis
      proof (cases "high < int (length xs) - 1")
        case True
        with less.prems(5) have "x < fst (xs ! nat (high + 1))" by simp
        moreover from True eq pos have "Suc (nat (low - 1)) < length xs" by simp
        from chained [OF this] eq pos have "snd (xs ! nat (low - 1)) + 1 = fst (xs ! nat (high + 1))"
          by (simp add: Suc_nat_eq_nat_zadd1 add.commute)
        ultimately show ?thesis using a by simp
      next
        case False
        with less.prems(2) have "high = int (length xs) - 1" by simp
        with eq have "nat (low - 1) = length xs - 1" by simp
        with a last show ?thesis by simp
      qed
    qed
  next
    case True
    define mid where "mid = (low + high) div 2"
    from True less.prems(1,2) have m: "low \<le> mid" "mid \<le> high" "0 \<le> mid" "mid < int (length xs)"
      by (simp_all add: mid_def)
    obtain s e where se: "xs ! nat mid = (s, e)" by (cases "xs ! nat mid")
    have unfold: "binarySearch_loop cb xs low high =
        (if cb (xs ! nat mid) = 0 then mid
         else if cb (xs ! nat mid) < 0 then binarySearch_loop cb xs low (mid - 1)
         else binarySearch_loop cb xs (mid + 1) high)"
      using True by (subst binarySearch_loop.simps) (simp add: mid_def Let_def)
    show ?thesis
    proof (cases "x < s")
      case lt: True
      then have c: "cb (xs ! nat mid) < 0" "cb (xs ! nat mid) \<noteq> 0" by (simp_all add: cb_def se)
      have "nat (mid - 1 - low + 1) < nat (high - low + 1)" using m by simp
      moreover have "mid - 1 < int (length xs) - 1 \<longrightarrow> x < fst (xs ! nat (mid - 1 + 1))"
        using lt se by simp
      ultimately have "0 \<le> binarySearch_loop cb xs low (mid - 1) \<and>
         binarySearch_loop cb xs low (mid - 1) < int (length xs) \<and>
         fst (xs ! nat (binarySearch_loop cb xs low (mid - 1))) \<le> x \<and>
         x \<le> snd (xs ! nat (binarySearch_loop cb xs low (mid - 1)))"
        using less.prems m by (intro less.hyps) simp_all
      with unfold c show ?thesis by simp
    next
      case nlt: False
      show ?thesis
      proof (cases "x > e")
        case gt: True
        with nlt have c: "\<not> cb (xs ! nat mid) < 0" "cb (xs ! nat mid) \<noteq> 0"
          by (simp_all add: cb_def se)
        have "nat (high - (mid + 1) + 1) < nat (high - low + 1)" using m by simp
        moreover have "0 < mid + 1 \<longrightarrow> snd (xs ! nat (mid + 1 - 1)) < x"
          using gt se by simp
        ultimately have "0 \<le> binarySearch_loop cb xs (mid + 1) high \<and>
           binarySearch_loop cb xs (mid + 1) high < int (length xs) \<and>
           fst (xs ! nat (binarySearch_loop cb xs (mid + 1) high)) \<le> x \<and>
           x \<le> snd (xs ! nat (binarySearch_loop cb xs (mid + 1) high))"
          using less.prems m by (intro less.hyps) simp_all
        with unfold c show ?thesis by simp
      next
        case ngt: False
        with nlt have "cb (xs ! nat mid) = 0" by (simp add: cb_def se)
        with unfold nlt ngt se m show ?thesis by simp
      qed
    qed
  qed
qed


lemma split_nl_not_Nil: "split_nl s \<noteq> []"
  by (induction s) (auto split: list.splits)

lemma join_split_nl: "join_nl (split_nl s) = s"
proof (induction s)
  case Nil
  show ?case by simp
next
  case (Cons c cs)
  obtain l ls where sp: "split_nl cs = l # ls" using split_nl_not_Nil [of cs] by (cases "split_nl cs") auto
  with Cons show ?case by (cases ls) auto
qed

lemma split_nl_no_newline: "l \<in> set (split_nl s) \<Longrightarrow> CHR 0x0A \<notin> set l"
proof (induction s arbitrary: l)
  case Nil
  then show ?case by simp
next
  case (Cons c cs)
  obtain l' ls where sp: "split_nl cs = l' # ls" using split_nl_not_Nil [of cs] by (cases "split_nl cs") auto
  with Cons show ?case by (auto split: if_splits)
qed

lemma line_offset_Cons: "line_offset (l # ls) (Suc i) = length l + 1 + line_offset ls i"
  by (induction i) simp_all

lemma offsets_from_nth:
  "i < length ls \<Longrightarrow>
     offsets_from c ls ! i =
       (c + int (line_offset ls i), c + int (line_offset ls i) + int (length (ls ! i)))"
proof (induction ls arbitrary: c i)
  case Nil
  then show ?case by simp
next
  case (Cons l ls)
  show ?case
  proof (cases i)
    case 0
    then show ?thesis by simp
  next
    case (Suc i')
    with Cons.prems have "i' < length ls" by simp
    from Cons.IH [OF this, of "c + int (length l) + 1"] Suc show ?thesis
      by (simp add: line_offset_Cons del: line_offset.simps)
  qed
qed

lemma length_offsets_from: "length (offsets_from c ls) = length ls"
  by (induction ls arbitrary: c) simp_all

lemma join_nl_nth:
  "i < length ls \<Longrightarrow> j < length (ls ! i) \<Longrightarrow> join_nl ls ! (line_offset ls i + j) = ls ! i ! j"
proof (induction ls arbitrary: i rule: join_nl.induct)
  case 1
  then show ?case by simp
next
  case (2 l)
  then show ?case by simp
next
  case (3 l l' ls)
  show ?case
  proof (cases i)
    case 0
    with "3.prems" show ?thesis by (simp add: nth_append)
  next
    case (Suc i')
    with "3.prems" have "i' < length (l' # ls)" "j < length ((l' # ls) ! i')" by simp_all
    from "3.IH" [OF this] Suc show ?thesis
      by (simp add: line_offset_Cons nth_append del: line_offset.simps)
  qed
qed

lemma join_nl_newline:
  "Suc i < length ls \<Longrightarrow> join_nl ls ! (line_offset ls i + length (ls ! i)) = CHR 0x0A"
proof (induction ls arbitrary: i rule: join_nl.induct)
  case 1
  then show ?case by simp
next
  case (2 l)
  then show ?case by simp
next
  case (3 l l' ls)
  show ?case
  proof (cases i)
    case 0
    then show ?thesis by (simp add: nth_append)
  next
    case (Suc i')
    with "3.prems" have "Suc i' < length (l' # ls)" by simp
    from "3.IH" [OF this] Suc show ?thesis
      by (simp add: line_offset_Cons nth_append del: line_offset.simps)
  qed
qed

lemma length_join_nl:
  "ls \<noteq> [] \<Longrightarrow>
     length (join_nl ls) = line_offset ls (length ls - 1) + length (ls ! (length ls - 1))"
proof (induction ls rule: join_nl.induct)
  case 1
  then show ?case by simp
next
  case (2 l)
  then show ?case by simp
next
  case (3 l l' ls)
  then show ?case by (simp add: line_offset_Cons del: line_offset.simps)
qed

lemma filter_rev_upt_found:
  "p \<le> q \<Longrightarrow> P p \<Longrightarrow> (\<And>j. p < j \<Longrightarrow> j \<le> q \<Longrightarrow> \<not> P j) \<Longrightarrow>
     filter P (rev [0 ..< Suc q]) = p # filter P (rev [0 ..< p])"
proof (induction q)
  case 0
  then show ?case by simp
next
  case (Suc q)
  show ?case
  proof (cases "p = Suc q")
    case True
    with Suc.prems show ?thesis by simp
  next
    case False
    with Suc.prems have "p \<le> q" "\<not> P (Suc q)" by simp_all
    with Suc.IH Suc.prems show ?thesis by simp
  qed
qed

lemma filter_rev_upt_none: "(\<And>j. j < n \<Longrightarrow> \<not> P j) \<Longrightarrow> filter P (rev [0 ..< n]) = []"
  by (induction n) simp_all

lemma lastIndexOf_found:
  assumes "p \<le> q" and "q < length s" and "s ! p = ch" and "\<And>j. p < j \<Longrightarrow> j \<le> q \<Longrightarrow> s ! j \<noteq> ch"
  shows "lastIndexOf s ch (int q) = int p"
proof -
  from assms(2) have "min (max (int q) 0) (int (length s) - 1) = int q"
    and "nat (int q + 1) = Suc q" by simp_all
  moreover from filter_rev_upt_found [of p q "\<lambda>i. s ! i = ch"] assms
  have "filter (\<lambda>i. s ! i = ch) (rev [0 ..< Suc q]) = p # filter (\<lambda>i. s ! i = ch) (rev [0 ..< p])"
    by simp
  ultimately show ?thesis by (simp only: lastIndexOf_def Let_def list.case)
qed

lemma lastIndexOf_none:
  assumes "q < length s" and "\<And>j. j \<le> q \<Longrightarrow> s ! j \<noteq> ch"
  shows "lastIndexOf s ch (int q) = - 1"
proof -
  from assms(1) have "min (max (int q) 0) (int (length s) - 1) = int q"
    and "nat (int q + 1) = Suc q" by simp_all
  moreover from filter_rev_upt_none [of "Suc q" "\<lambda>i. s ! i = ch"] assms(2)
  have "filter (\<lambda>i. s ! i = ch) (rev [0 ..< Suc q]) = []" by simp
  ultimately show ?thesis by (simp only: lastIndexOf_def Let_def list.case)
qed

lemma lastIndexOf_before_start: "lastIndexOf s ch (- 1) = - 1 \<or> lastIndexOf s ch (- 1) = 0"
proof (cases s)
  case Nil
  then show ?thesis by (simp add: lastIndexOf_def)
next
  case (Cons c cs)
  then show ?thesis by (simp add: lastIndexOf_def Let_def)
qed


lemma lineOffsets_nth:
  "i < length (lines L) \<Longrightarrow>
     lineOffsets L ! i =
       (int (line_offset (lines L) i), int (line_offset (lines L) i) + int (length (lines L ! i)))"
  by (simp add: lineOffsets_def offsets_from_nth)

lemma currentLine_correct:
  assumes "0 \<le> cursor L" and "cursor L \<le> int (length (str L))"
  shows "0 \<le> currentLine L \<and> currentLine L < int (length (lines L)) \<and>
         int (line_offset (lines L) (nat (currentLine L))) \<le> cursor L \<and>
         cursor L \<le> int (line_offset (lines L) (nat (currentLine L))) +
           int (length (lines L ! nat (currentLine L)))"
proof -
  let ?ls = "lines L" and ?xs = "lineOffsets L"
  have ne: "?ls \<noteq> []" by (simp add: lines_def split_nl_not_Nil)
  have len: "length ?xs = length ?ls" by (simp add: lineOffsets_def length_offsets_from)
  have chained: "snd (?xs ! i) + 1 = fst (?xs ! Suc i)" if "Suc i < length ?xs" for i
    using that len by (simp add: lineOffsets_nth)
  have first: "?xs \<noteq> []" "fst (?xs ! 0) \<le> cursor L"
    using ne len assms(1) by (auto simp: lineOffsets_nth)
  have "int (length (str L)) = int (line_offset ?ls (length ?ls - 1)) + int (length (?ls ! (length ?ls - 1)))"
    using length_join_nl [OF ne] by (simp add: lines_def join_split_nl)
  with assms(2) ne len have last: "cursor L \<le> snd (?xs ! (length ?xs - 1))"
    by (simp add: lineOffsets_nth)
  have "0 \<le> currentLine L \<and> currentLine L < int (length ?xs) \<and>
      fst (?xs ! nat (currentLine L)) \<le> cursor L \<and> cursor L \<le> snd (?xs ! nat (currentLine L))"
    unfolding currentLine_def binarySearch_def
    using first by (intro binarySearch_loop_finds chained last) (auto simp: Suc_leI)
  with len show ?thesis by (auto simp: lineOffsets_nth)
qed

lemma col_correct:
  fixes s :: string and c k :: nat
  assumes "c \<le> length s" and "k < length (split_nl s)"
    and "line_offset (split_nl s) k \<le> c"
    and "c \<le> line_offset (split_nl s) k + length (split_nl s ! k)"
  shows "(let col0 = int c - lastIndexOf s (CHR 0x0A) (int c - 1) - 1
          in if col0 < 0 then 0 else col0) = int c - int (line_offset (split_nl s) k)"
proof -
  let ?ls = "split_nl s"
  have s: "s = join_nl ?ls" by (simp add: join_split_nl)
  have line: "s ! (line_offset ?ls k + j) \<noteq> CHR 0x0A" if "j < length (?ls ! k)" for j
  proof -
    from join_nl_nth [OF assms(2) that] s have "s ! (line_offset ?ls k + j) = ?ls ! k ! j" by simp
    moreover from split_nl_no_newline [of "?ls ! k" s] assms(2) have "CHR 0x0A \<notin> set (?ls ! k)"
      by simp
    ultimately show ?thesis using that by (metis nth_mem)
  qed
  show ?thesis
  proof (cases c)
    case 0
    with assms(3) have "line_offset ?ls k = 0" by simp
    with 0 lastIndexOf_before_start [of s "CHR 0x0A"] show ?thesis by (auto simp: Let_def)
  next
    case (Suc q)
    with assms(1) have q: "q < length s" by simp
    have c1: "int c - 1 = int q" using Suc by simp
    show ?thesis
    proof (cases k)
      case 0
      have "s ! j \<noteq> CHR 0x0A" if "j \<le> q" for j
        using line [of j] that assms(4) Suc 0 by simp
      from lastIndexOf_none [OF q this] c1 0 show ?thesis by (simp add: Let_def)
    next
      case k: (Suc k')
      let ?p = "line_offset ?ls k' + length (?ls ! k')"
      have p: "line_offset ?ls k = ?p + 1" using k by simp
      with assms(3) Suc have pq: "?p \<le> q" by simp
      from join_nl_newline [of k' ?ls] assms(2) k s have nl: "s ! ?p = CHR 0x0A" by simp
      have "s ! j \<noteq> CHR 0x0A" if "?p < j" "j \<le> q" for j
      proof -
        from that p have "j = line_offset ?ls k + (j - line_offset ?ls k)" by simp
        moreover from that assms(4) Suc p have "j - line_offset ?ls k < length (?ls ! k)" by simp
        ultimately show ?thesis using line [of "j - line_offset ?ls k"] by simp
      qed
      from lastIndexOf_found [OF pq q nl this] c1 p pq Suc show ?thesis by (simp add: Let_def)
    qed
  qed
qed


lemma eat_Some_col:
  assumes "eat p L = (Some t, L')"
  shows "tok_col t =
     (let col0 = cursor L - lastIndexOf (str L) (CHR 0x0A) (cursor L - 1) - 1
      in if col0 < 0 then 0 else col0)"
proof -
  from eat_cases [OF assms] obtain q v L1 where 1: "p = Some q" "taste p L = (Some v, L1)"
    and 2: "make_token q v L1 = (Some t, L')" by auto
  from taste_unchanged [OF 1(2)] taste_Some [OF 1(2)] 2 show ?thesis
    by (auto simp: make_token_def Let_def)
qed

lemma literal_matches:
  assumes "\<not> failedMatch q s c" and "q \<noteq> []"
  shows "0 \<le> c \<and> c + int (length q) \<le> int (length s) \<and> take (length q) (drop (nat c) s) = q"
proof -
  from assms(1) have m: "char_at s (c + int i) = Some (q ! i)" if "i < length q" for i
    using that by (auto simp: failedMatch_iff)
  from assms(2) have "0 < length q" by simp
  from m [OF this] have c0: "0 \<le> c" by (simp add: char_at_def split: if_splits)
  from assms(2) have "length q - 1 < length q" by simp
  from m [OF this] assms(2) have le: "c + int (length q) \<le> int (length s)"
    by (simp add: char_at_def split: if_splits)
  have "take (length q) (drop (nat c) s) = q"
  proof (rule nth_equalityI)
    show "length (take (length q) (drop (nat c) s)) = length q" using le c0 by simp
  next
    fix i assume "i < length (take (length q) (drop (nat c) s))"
    then have i: "i < length q" by simp
    from m [OF i] c0 le i have "s ! (nat c + i) = q ! i"
      by (simp add: char_at_def nat_add_distrib split: if_splits)
    with i le c0 show "take (length q) (drop (nat c) s) ! i = q ! i" by simp
  qed
  with c0 le show ?thesis by simp
qed

lemma taste_anchored:
  assumes "taste (Some p) L = (Some v, L1)" and "0 \<le> cursor L" and "\<forall>r. p = PRegex r \<longrightarrow> sticky r"
  shows "cursor L + int (length v) \<le> int (length (str L)) \<and>
         take (length v) (drop (nat (cursor L)) (str L)) = v"
proof (cases p)
  case (PStr q)
  with assms(1) have "q \<noteq> []" "\<not> failedMatch q (str L) (cursor L)" "v = q"
    by (auto simp: Let_def split: if_splits)
  with literal_matches [of q "str L" "cursor L"] show ?thesis by simp
next
  case (PRegex r)
  with assms(3) have "sticky r" by simp
  with assms(1,2) PRegex obtain n where le: "cursor L \<le> int (length (str L))"
    and v: "v = take n (drop (nat (cursor L)) (str L))"
    by (auto simp: Let_def regex_exec_sticky match_text_def split: option.splits if_splits)
  from v have "take (length v) (drop (nat (cursor L)) (str L)) = v" by (simp add: min_def)
  moreover from v le assms(2) have "cursor L + int (length v) \<le> int (length (str L))" by simp
  ultimately show ?thesis by simp
qed

text \<open>
  C3, as stated: for every string or RegExp pattern accepted at the public interface, the
  token of \<^verbatim>\<open>eat\<close> has \<^verbatim>\<open>s.slice(t.start, t.end) == t.value\<close>. \<^verbatim>\<open>taste\<close> adds the
  length of the match to \<^verbatim>\<open>tasteCursor\<close> wherever \<^verbatim>\<open>exec\<close> found it, and an
  expression that is not sticky is found anywhere: \<^verbatim>\<open>eat(/cd/)\<close> on \<^verbatim>\<open>"abcd"\<close> at
  cursor 0 gives the value \<^verbatim>\<open>"cd"\<close> with \<^verbatim>\<open>start = 0\<close> and \<^verbatim>\<open>end = 2\<close>, the range of
  \<^verbatim>\<open>"ab"\<close>.
\<close>

theorem C3_counterexample:
  "case eat (Some (PRegex CD_UNANCHORED)) (Lexer ''abcd'') of
     (Some t, L') \<Rightarrow>
       tok_value t = ''cd'' \<and> slice (str (Lexer ''abcd'')) (tok_start t) (tok_end t) = ''ab''
   | _ \<Rightarrow> False"
  by code_simp

text \<open>
  C3, amended: for every token \<open>t\<close> that \<^verbatim>\<open>eat\<close> returns for a literal or a sticky
  regular expression, with the cursor not negative, \<^verbatim>\<open>s.slice(t.start, t.end)\<close> is
  \<^verbatim>\<open>t.value\<close>, \<^verbatim>\<open>t.line\<close> is the index of a line of the input, \<^verbatim>\<open>t.start\<close> lies
  between \<^verbatim>\<open>lineStart(t.line)\<close> and \<^verbatim>\<open>lineEnd(t.line)\<close>, and \<^verbatim>\<open>t.col\<close> is
  \<^verbatim>\<open>t.start - lineStart(t.line)\<close>, which is never negative.
\<close>

theorem C3_token_position:
  assumes "eat (Some p) L = (Some t, L')" and "0 \<le> cursor L"
    and "\<forall>r. p = PRegex r \<longrightarrow> sticky r"
  shows "slice (str L) (tok_start t) (tok_end t) = tok_value t \<and>
         0 \<le> tok_line t \<and> tok_line t < int (length (lines L)) \<and>
         (\<exists>start end.
            lineStart L (tok_line t) = Some start \<and> lineEnd L (tok_line t) = Some end \<and>
            start \<le> tok_start t \<and> tok_start t \<le> end \<and> tok_col t = tok_start t - start)"
proof -
  let ?c = "cursor L" and ?v = "tok_value t" and ?s = "str L"
  note e = eat_Some [OF assms(1)]
  from e obtain L1 where t: "taste (Some p) L = (Some ?v, L1)" by (metis prod.collapse)
  from taste_anchored [OF t assms(2,3)] have le: "?c + int (length ?v) \<le> int (length ?s)"
    and v: "take (length ?v) (drop (nat ?c) ?s) = ?v" by simp_all
  have 1: "slice ?s (tok_start t) (tok_end t) = ?v"
    using e le v assms(2) by (simp add: slice_def Let_def min_def)
  from le have cl: "?c \<le> int (length ?s)" by simp
  note k = currentLine_correct [OF assms(2) cl]
  let ?k = "nat (currentLine L)"
  let ?start = "int (line_offset (lines L) ?k)"
  let ?end = "?start + int (length (lines L ! ?k))"
  from k have kl: "?k < length (lines L)" by (simp add: nat_less_iff)
  have arr: "array_at (lineOffsets L) (currentLine L) = Some (?start, ?end)"
    using k kl by (simp add: array_at_def lineOffsets_def length_offsets_from offsets_from_nth)
  have ls: "lineStart L (tok_line t) = Some ?start" and le': "lineEnd L (tok_line t) = Some ?end"
    using e k arr by (simp_all add: lineStart_def lineEnd_def Let_def)
  have "nat ?c \<le> length ?s" "line_offset (split_nl ?s) ?k \<le> nat ?c"
    "nat ?c \<le> line_offset (split_nl ?s) ?k + length (split_nl ?s ! ?k)"
    using k assms(2) cl unfolding lines_def by linarith+
  from col_correct [OF this(1) kl [unfolded lines_def] this(2,3)] assms(2)
  have "tok_col t = ?c - ?start"
    by (simp add: eat_Some_col [OF assms(1)] lines_def)
  with e k ls le' 1 show ?thesis by auto
qed

text \<open>
  The theorem for \<^verbatim>\<open>eat("ef")\<close> at cursor 5 of \<^verbatim>\<open>"abc\ndef\nghi"\<close>, the input of the
  repository's test \<^verbatim>\<open>eat / col\<close>: line 1, column 1.
\<close>

theorem C3_token_position_witness:
  "\<exists>t L'. eat (Some (PStr ''ef'')) ((Lexer ''abc\<newline>def\<newline>ghi'')\<lparr>cursor := 5\<rparr>) = (Some t, L') \<and>
     slice ''abc\<newline>def\<newline>ghi'' (tok_start t) (tok_end t) = tok_value t \<and>
     tok_line t = 1 \<and> tok_col t = 1"
proof -
  let ?L = "(Lexer ''abc\<newline>def\<newline>ghi'')\<lparr>cursor := 5\<rparr>"
  have "case eat (Some (PStr ''ef'')) ?L of
          (Some t, L') \<Rightarrow> tok_line t = 1 \<and> tok_col t = 1 | _ \<Rightarrow> False"
    by code_simp
  then obtain t L' where e: "eat (Some (PStr ''ef'')) ?L = (Some t, L')"
    and l: "tok_line t = 1" "tok_col t = 1"
    by (auto split: prod.splits option.splits)
  have "0 \<le> cursor ?L" "\<forall>r. PStr ''ef'' = PRegex r \<longrightarrow> sticky r" by simp_all
  from C3_token_position [OF e this] e l show ?thesis by (auto simp: Lexer_def)
qed


section \<open>Line accounting on a concrete input\<close>

text \<open>
  C8, as stated: on the input \<^verbatim>\<open>"ab\n  cd\n    ef"\<close> the claim expects
  \<^verbatim>\<open>lineStart(2) == 7\<close>, \<^verbatim>\<open>lineEnd(2) == 13\<close>, \<^verbatim>\<open>lineIndent(2) == 4\<close> and
  \<^verbatim>\<open>linesInRange(3, 7) == [1, 2]\<close>. The lines are \<^verbatim>\<open>"ab"\<close> at 0..2, \<^verbatim>\<open>"  cd"\<close> at
  3..7 and \<^verbatim>\<open>"    ef"\<close> at 8..14, so the four values do not hold together.
\<close>

theorem C8_lines_example_counterexample:
  "\<not> (lineStart (Lexer ''ab\<newline>  cd\<newline>    ef'') 2 = Some 7 \<and>
      lineEnd (Lexer ''ab\<newline>  cd\<newline>    ef'') 2 = Some 13 \<and>
      lineIndent (Lexer ''ab\<newline>  cd\<newline>    ef'') 2 = Some 4 \<and>
      linesInRange (Lexer ''ab\<newline>  cd\<newline>    ef'') 3 7 = [1, 2])"
  by code_simp

text \<open>
  C8, amended: for a Lexer over \<^verbatim>\<open>"ab\n  cd\n    ef"\<close>, \<^verbatim>\<open>lineStart(2) == 8\<close>,
  \<^verbatim>\<open>lineEnd(2) == 14\<close>, \<^verbatim>\<open>lineIndent(2) == 4\<close> and \<^verbatim>\<open>linesInRange(3, 7) == [1]\<close>.
\<close>

theorem C8_lines_example:
  "lineStart (Lexer ''ab\<newline>  cd\<newline>    ef'') 2 = Some 8 \<and>
   lineEnd (Lexer ''ab\<newline>  cd\<newline>    ef'') 2 = Some 14 \<and>
   lineIndent (Lexer ''ab\<newline>  cd\<newline>    ef'') 2 = Some 4 \<and>
   linesInRange (Lexer ''ab\<newline>  cd\<newline>    ef'') 3 7 = [1]"
  by code_simp

end
